theory Spec2Isabelle
  imports Main "HOL-Library.Word"
begin


section \<open>The document tree of the YAML library\<close>

text \<open>
  \<^verbatim>\<open>filterByRules\<close> and \<^verbatim>\<open>trim\<close> (cmd/yamltrimmer.go) work on \<^verbatim>\<open>yaml.Node\<close> of
  gopkg.in/yaml.v3. The library is not part of the repository; its node type is
  written out here with the fields the library declares. \<^verbatim>\<open>Kind\<close> and \<^verbatim>\<open>Style\<close> are
  \<^verbatim>\<open>uint32\<close> with constants \<^verbatim>\<open>1 << iota\<close>; the zero value of a node (\<^verbatim>\<open>var n yaml.Node\<close>)
  has kind \<open>0\<close>, which is none of the named kinds.
\<close>

type_synonym Kind = "32 word"
type_synonym Style = "32 word"

definition DocumentNode :: Kind where "DocumentNode = 1"
definition SequenceNode :: Kind where "SequenceNode = 2"
definition MappingNode :: Kind where "MappingNode = 4"
definition ScalarNode :: Kind where "ScalarNode = 8"
definition AliasNode :: Kind where "AliasNode = 16"

definition FlowStyle :: Style where "FlowStyle = 32"

datatype Node = Node
  (Kind: Kind) (Style: Style) (Tag: string) (Value: string) (Anchor: string)
  (Alias: "Node option") (Content: "Node list")
  (HeadComment: string) (LineComment: string) (FootComment: string)
  (Line: int) (Column: int)

text \<open>The zero value \<^verbatim>\<open>var outputNode yaml.Node\<close>.\<close>

definition zeroNode :: Node where
  "zeroNode = Node 0 0 [] [] [] None [] [] [] [] 0 0"

text \<open>The three assignments \<^verbatim>\<open>filterByRules\<close> makes to fields of the output node.\<close>

fun setKind :: "Kind \<Rightarrow> Node \<Rightarrow> Node" where
  "setKind k (Node kd st tg v an al c hc lc fc ln col) = Node k st tg v an al c hc lc fc ln col"

fun setStyle :: "Style \<Rightarrow> Node \<Rightarrow> Node" where
  "setStyle s (Node kd st tg v an al c hc lc fc ln col) = Node kd s tg v an al c hc lc fc ln col"

fun appendContent :: "Node \<Rightarrow> Node \<Rightarrow> Node" where
  "appendContent x (Node kd st tg v an al c hc lc fc ln col) =
     Node kd st tg v an al (c @ [x]) hc lc fc ln col"

section \<open>Rules and failures\<close>

text \<open>
  \<^verbatim>\<open>type IncludeConfigItem struct { Key string; Include []IncludeConfigItem }\<close>.
\<close>

datatype IncludeConfigItem = IncludeConfigItem (Key: string) (Include: "IncludeConfigItem list")

text \<open>
  How a call ends without a result: \<^verbatim>\<open>logrus.Fatalf\<close> logs its message and exits the
  process (\<open>Fatal\<close>); \<^verbatim>\<open>trim\<close> returns an \<^verbatim>\<open>error\<close> built by \<^verbatim>\<open>fmt.Errorf\<close> (\<open>Failed\<close>);
  an index past the end of a slice is a run-time panic (\<open>IndexOutOfRange\<close>), and so is
  the use of a nil pointer (\<open>NilDereference\<close>, in the functions on a store below).
\<close>

datatype error = Fatal string | Failed string | IndexOutOfRange | NilDereference

section \<open>filterByRules\<close>

text \<open>
  The inner loop (lines 168 to 172), up to the comparison with the rule's key:
  \<^verbatim>\<open>for i := 0; i < len(inputNode.Content); i += 2 {
       keyNode := inputNode.Content[i]; valueNode := inputNode.Content[i+1]
       if keyNode.Value == rule.Key { ...; break } }\<close>
  \<open>scan\<close> returns the pair on which the body runs, \<open>None\<close> when the loop ends without a
  match, and the panic of \<^verbatim>\<open>Content[i+1]\<close> when the slice ends after a key. The input
  node is not written between the start of the loop and the \<^verbatim>\<open>break\<close>, so the body's
  work on the matched pair is done by the caller, \<open>rulesLoop\<close>.
\<close>

function scan :: "Node list \<Rightarrow> nat \<Rightarrow> string \<Rightarrow> error + (Node \<times> Node) option" where
  "scan content i key =
     (if i < length content then
        (if i + 1 < length content then
           (let keyNode = content ! i; valueNode = content ! (i + 1) in
              if Value keyNode = key then Inr (Some (keyNode, valueNode))
              else scan content (i + 2) key)
         else Inl IndexOutOfRange)
      else Inr None)"
  by pat_completeness auto
termination
  by (relation "measure (\<lambda>(content, i, key). length content - i)") auto

declare scan.simps [simp del]

text \<open>
  \<open>filterByRules rules inputNode outputNode\<close> returns the output node as the call
  leaves it; \<open>rulesLoop\<close> is the loop over the rules (lines 166 to 188).
\<close>

fun filterByRules :: "IncludeConfigItem list \<Rightarrow> Node \<Rightarrow> Node \<Rightarrow> error + Node"
  and rulesLoop :: "IncludeConfigItem list \<Rightarrow> Node \<Rightarrow> Node \<Rightarrow> error + Node" where
  "filterByRules rules inputNode outputNode =
     (if Kind inputNode \<noteq> MappingNode then Inl (Fatal ''Input node is not a mapping node'')
      else rulesLoop rules inputNode (setStyle (Style inputNode) (setKind MappingNode outputNode)))"
| "rulesLoop [] inputNode outputNode = Inr outputNode"
| "rulesLoop (IncludeConfigItem key incl # rules) inputNode outputNode =
     (case scan (Content inputNode) 0 key of
        Inl e \<Rightarrow> Inl e
      | Inr None \<Rightarrow> rulesLoop rules inputNode outputNode
      | Inr (Some (keyNode, valueNode)) \<Rightarrow>
          (if length incl > 0 then
             (case filterByRules incl valueNode zeroNode of
                Inl e \<Rightarrow> Inl e
              | Inr nestedOutputNode \<Rightarrow>
                  rulesLoop rules inputNode
                    (appendContent nestedOutputNode (appendContent keyNode outputNode)))
           else rulesLoop rules inputNode
                  (appendContent valueNode (appendContent keyNode outputNode))))"

text \<open>The operation the specification calls \<open>project\<close>: the output node starts as the zero value.\<close>

definition project :: "IncludeConfigItem list \<Rightarrow> Node \<Rightarrow> error + Node" where
  "project rules inputNode = filterByRules rules inputNode zeroNode"

section \<open>trim\<close>

text \<open>
  \<^verbatim>\<open>trim\<close> (lines 191 to 225). \<^verbatim>\<open>yaml.Unmarshal\<close> and the encoder (\<^verbatim>\<open>yaml.NewEncoder\<close>,
  \<^verbatim>\<open>SetIndent(2)\<close>, \<^verbatim>\<open>Encode\<close>) belong to the library, so they are parameters: \<open>unmarshal\<close>
  returns the document node or the library's error text, \<open>encode\<close> the bytes or the
  library's error text. A byte slice is a list of characters (one \<open>char\<close> per byte).
\<close>

type_synonym bytes = string

definition trim ::
  "(bytes \<Rightarrow> string + Node) \<Rightarrow> (Node \<Rightarrow> string + bytes) \<Rightarrow> bytes \<Rightarrow> IncludeConfigItem list
     \<Rightarrow> error + bytes" where
  "trim unmarshal encode input rules =
     (case unmarshal input of
        Inl err \<Rightarrow> Inl (Failed (''failed to unmarshal input YAML: '' @ err))
      | Inr root \<Rightarrow>
          if length (Content root) = 0 then Inl (Failed ''no content in the input YAML'')
          else if length (Content root) > 1 then
            Inl (Fatal ''Multiple documents in the input YAML. This is not supported yet.'')
          else
            (let root = Content root ! 0 in
             case filterByRules rules root zeroNode of
               Inl e \<Rightarrow> Inl e
             | Inr outputNode \<Rightarrow>
                 (case encode outputNode of
                    Inl err \<Rightarrow> Inl (Failed (''failed to marshal output YAML: '' @ err))
                  | Inr output \<Rightarrow> Inr output)))"

section \<open>filterByRules on a store of nodes\<close>

text \<open>
  \<^verbatim>\<open>filterByRules\<close> takes pointers: it writes \<^verbatim>\<open>Kind\<close>, \<^verbatim>\<open>Style\<close> and \<^verbatim>\<open>Content\<close> of the node
  \<^verbatim>\<open>outputNode\<close> points to, and the content it appends holds the pointers found in the
  input. The functions above compute with the trees the pointers lead to; for what the
  call does to memory, here is the same function on a store. A node is a cell of the
  store, a pointer is \<open>None\<close> (nil) or the index of a cell, \<^verbatim>\<open>Content\<close> is a list of
  pointers. \<^verbatim>\<open>var nestedOutputNode yaml.Node\<close> adds a cell with the zero value at the end
  of the store. The output node's content slice starts as nil, so \<^verbatim>\<open>append\<close> never writes
  into an array another node holds, and a content is a list of its own. A pointer to no
  cell of the store cannot arise in Go; it is treated like nil.
\<close>

type_synonym ptr = "nat option"

record cell =
  cKind :: Kind
  cStyle :: Style
  cTag :: string
  cValue :: string
  cAnchor :: string
  cAlias :: ptr
  cContent :: "ptr list"
  cHeadComment :: string
  cLineComment :: string
  cFootComment :: string
  cLine :: int
  cColumn :: int

type_synonym store = "cell list"

definition zeroCell :: cell where
  "zeroCell = \<lparr>cKind = 0, cStyle = 0, cTag = [], cValue = [], cAnchor = [], cAlias = None,
     cContent = [], cHeadComment = [], cLineComment = [], cFootComment = [], cLine = 0, cColumn = 0\<rparr>"

definition deref :: "store \<Rightarrow> ptr \<Rightarrow> cell option" where
  "deref s p = (case p of None \<Rightarrow> None | Some a \<Rightarrow> if a < length s then Some (s ! a) else None)"

definition assign :: "store \<Rightarrow> ptr \<Rightarrow> (cell \<Rightarrow> cell) \<Rightarrow> store option" where
  "assign s p f =
     (case p of None \<Rightarrow> None | Some a \<Rightarrow> if a < length s then Some (s[a := f (s ! a)]) else None)"

definition new :: "store \<Rightarrow> ptr \<times> store" where
  "new s = (Some (length s), s @ [zeroCell])"

text \<open>The inner loop, reading \<^verbatim>\<open>inputNode.Content\<close> and \<^verbatim>\<open>keyNode.Value\<close> through the store.\<close>

function hScan :: "store \<Rightarrow> ptr \<Rightarrow> nat \<Rightarrow> string \<Rightarrow> error + (ptr \<times> ptr) option" where
  "hScan s inputNode i key =
     (case deref s inputNode of
        None \<Rightarrow> Inl NilDereference
      | Some inp \<Rightarrow>
          if i < length (cContent inp) then
            (if i + 1 < length (cContent inp) then
               (let keyNode = cContent inp ! i; valueNode = cContent inp ! (i + 1) in
                case deref s keyNode of
                  None \<Rightarrow> Inl NilDereference
                | Some k \<Rightarrow> if cValue k = key then Inr (Some (keyNode, valueNode))
                           else hScan s inputNode (i + 2) key)
             else Inl IndexOutOfRange)
          else Inr None)"
  by pat_completeness auto
termination
  by (relation "measure (\<lambda>(s, inputNode, i, key).
        case deref s inputNode of None \<Rightarrow> 0 | Some inp \<Rightarrow> length (cContent inp) - i)") auto

declare hScan.simps [simp del]

text \<open>
  \<^verbatim>\<open>filterByRules\<close> and its loop over the rules. The result is the store the call leaves;
  a call that fails leaves a store too, the one a caller that recovers from the panic
  would find, so a failure comes with the store at that moment.
\<close>

fun hFilterByRules ::
    "IncludeConfigItem list \<Rightarrow> ptr \<Rightarrow> ptr \<Rightarrow> store \<Rightarrow> (error \<times> store) + store"
  and hRulesLoop ::
    "IncludeConfigItem list \<Rightarrow> ptr \<Rightarrow> ptr \<Rightarrow> store \<Rightarrow> (error \<times> store) + store" where
  "hFilterByRules rules inputNode outputNode s =
     (case deref s inputNode of
        None \<Rightarrow> Inl (NilDereference, s)
      | Some inp \<Rightarrow>
          if cKind inp \<noteq> MappingNode then Inl (Fatal ''Input node is not a mapping node'', s)
          else
            (case assign s outputNode (\<lambda>c. c\<lparr>cKind := MappingNode\<rparr>) of
               None \<Rightarrow> Inl (NilDereference, s)
             | Some s1 \<Rightarrow>
                 (case deref s1 inputNode of
                    None \<Rightarrow> Inl (NilDereference, s1)
                  | Some inp1 \<Rightarrow>
                      (case assign s1 outputNode (\<lambda>c. c\<lparr>cStyle := cStyle inp1\<rparr>) of
                         None \<Rightarrow> Inl (NilDereference, s1)
                       | Some s2 \<Rightarrow> hRulesLoop rules inputNode outputNode s2))))"
| "hRulesLoop [] inputNode outputNode s = Inr s"
| "hRulesLoop (IncludeConfigItem key incl # rules) inputNode outputNode s =
     (case hScan s inputNode 0 key of
        Inl e \<Rightarrow> Inl (e, s)
      | Inr None \<Rightarrow> hRulesLoop rules inputNode outputNode s
      | Inr (Some (keyNode, valueNode)) \<Rightarrow>
          (case assign s outputNode (\<lambda>c. c\<lparr>cContent := cContent c @ [keyNode]\<rparr>) of
             None \<Rightarrow> Inl (NilDereference, s)
           | Some s1 \<Rightarrow>
               if length incl > 0 then
                 (case new s1 of (nestedOutputNode, s2) \<Rightarrow>
                    (case hFilterByRules incl valueNode nestedOutputNode s2 of
                       Inl failure \<Rightarrow> Inl failure
                     | Inr s3 \<Rightarrow>
                         (case assign s3 outputNode
                                 (\<lambda>c. c\<lparr>cContent := cContent c @ [nestedOutputNode]\<rparr>) of
                            None \<Rightarrow> Inl (NilDereference, s3)
                          | Some s4 \<Rightarrow> hRulesLoop rules inputNode outputNode s4)))
               else
                 (case assign s1 outputNode (\<lambda>c. c\<lparr>cContent := cContent c @ [valueNode]\<rparr>) of
                    None \<Rightarrow> Inl (NilDereference, s1)
                  | Some s2 \<Rightarrow> hRulesLoop rules inputNode outputNode s2)))"

text \<open>
  \<open>project\<close> on the store, as \<^verbatim>\<open>trim\<close> and the tests call it: the output node is a new node
  with the zero value.
\<close>

definition hProject ::
    "IncludeConfigItem list \<Rightarrow> ptr \<Rightarrow> store \<Rightarrow> (error \<times> store) + (ptr \<times> store)" where
  "hProject rules inputNode s =
     (case new s of (outputNode, s1) \<Rightarrow>
        (case hFilterByRules rules inputNode outputNode s1 of
           Inl failure \<Rightarrow> Inl failure
         | Inr s2 \<Rightarrow> Inr (outputNode, s2)))"

text \<open>The store a call leaves, whether it fails or returns.\<close>

definition storeAfter :: "(error \<times> store) + store \<Rightarrow> store" where
  "storeAfter r = (case r of Inl (e, s) \<Rightarrow> s | Inr s \<Rightarrow> s)"

definition storeAfterProject :: "(error \<times> store) + (ptr \<times> store) \<Rightarrow> store" where
  "storeAfterProject r = (case r of Inl (e, s) \<Rightarrow> s | Inr (p, s) \<Rightarrow> s)"

text \<open>
  Every cell of \<open>s\<close> other than the one \<open>p\<close> points to is a cell of \<open>s'\<close> with the same
  fields.
\<close>

definition untouched :: "ptr \<Rightarrow> store \<Rightarrow> store \<Rightarrow> bool" where
  "untouched p s s' \<longleftrightarrow>
     length s \<le> length s' \<and> (\<forall>a < length s. Some a \<noteq> p \<longrightarrow> s' ! a = s ! a)"

text \<open>
  The tree a pointer leads to. \<open>reprA P s p n\<close>: in the store \<open>s\<close> the pointer \<open>p\<close> leads to a
  node with the fields of \<open>n\<close>, its content pointers lead to the content of \<open>n\<close> and its
  alias pointer to the alias of \<open>n\<close>, and every cell visited on the way has an index that
  satisfies \<open>P\<close>. \<open>repr\<close> is the relation with no condition on the indices.
\<close>

fun reprA :: "(nat \<Rightarrow> bool) \<Rightarrow> store \<Rightarrow> ptr \<Rightarrow> Node \<Rightarrow> bool"
  and reprsA :: "(nat \<Rightarrow> bool) \<Rightarrow> store \<Rightarrow> ptr list \<Rightarrow> Node list \<Rightarrow> bool"
  and reprAl :: "(nat \<Rightarrow> bool) \<Rightarrow> store \<Rightarrow> ptr \<Rightarrow> Node option \<Rightarrow> bool" where
  "reprA P s None n = False"
| "reprA P s (Some x) (Node kd st tg v an al c hc lc fc ln col) =
     (P x \<and> x < length s
      \<and> cKind (s ! x) = kd \<and> cStyle (s ! x) = st \<and> cTag (s ! x) = tg \<and> cValue (s ! x) = v
      \<and> cAnchor (s ! x) = an \<and> cHeadComment (s ! x) = hc \<and> cLineComment (s ! x) = lc
      \<and> cFootComment (s ! x) = fc \<and> cLine (s ! x) = ln \<and> cColumn (s ! x) = col
      \<and> reprsA P s (cContent (s ! x)) c \<and> reprAl P s (cAlias (s ! x)) al)"
| "reprsA P s [] [] = True"
| "reprsA P s (p # ps) (n # ns) = (reprA P s p n \<and> reprsA P s ps ns)"
| "reprsA P s [] (n # ns) = False"
| "reprsA P s (p # ps) [] = False"
| "reprAl P s p None = (p = None)"
| "reprAl P s p (Some t) = reprA P s p t"

definition repr :: "store \<Rightarrow> ptr \<Rightarrow> Node \<Rightarrow> bool" where
  "repr s p n = reprA (\<lambda>x. True) s p n"

text \<open>A failure on the store and a failure on trees are the same failure.\<close>

definition sameFailure :: "error \<times> store \<Rightarrow> error \<Rightarrow> bool" where
  "sameFailure f e \<longleftrightarrow> fst f = e"

text \<open>
  The output node while the loop runs: the cell \<open>a\<close>, allocated after the first \<open>N\<close> cells,
  has the fields of \<open>out\<close> and no alias, and its content leads to the content of \<open>out\<close>
  through cells below \<open>N\<close> (the input) or above \<open>a\<close> (nested output nodes).
\<close>

definition outCell :: "nat \<Rightarrow> nat \<Rightarrow> store \<Rightarrow> Node \<Rightarrow> bool" where
  "outCell N a s out \<longleftrightarrow>
     a < length s \<and> N \<le> a
     \<and> cKind (s ! a) = Kind out \<and> cStyle (s ! a) = Style out \<and> cTag (s ! a) = Tag out
     \<and> cValue (s ! a) = Value out \<and> cAnchor (s ! a) = Anchor out
     \<and> cHeadComment (s ! a) = HeadComment out \<and> cLineComment (s ! a) = LineComment out
     \<and> cFootComment (s ! a) = FootComment out \<and> cLine (s ! a) = Line out
     \<and> cColumn (s ! a) = Column out \<and> cAlias (s ! a) = None \<and> Alias out = None
     \<and> reprsA (\<lambda>x. x < N \<or> a < x) s (cContent (s ! a)) (Content out)"

section \<open>Auxiliary notions for stating the properties\<close>

text \<open>
  The scan read off the list instead of the index: the remaining slice is empty, holds a
  key with no value after it, or starts with a pair. \<open>scan_drop\<close> proves it equal to \<open>scan\<close>.
\<close>

fun firstPair :: "Node list \<Rightarrow> string \<Rightarrow> error + (Node \<times> Node) option" where
  "firstPair [] key = Inr None"
| "firstPair [k] key = Inl IndexOutOfRange"
| "firstPair (k # v # rest) key =
     (if Value k = key then Inr (Some (k, v)) else firstPair rest key)"

text \<open>Appending several nodes to the content at once.\<close>

fun extendContent :: "Node list \<Rightarrow> Node \<Rightarrow> Node" where
  "extendContent es (Node kd st tg v an al c hc lc fc ln col) =
     Node kd st tg v an al (c @ es) hc lc fc ln col"

text \<open>
  The nodes at the even positions of a content slice, which a mapping node uses for its
  keys, and their texts.
\<close>

fun keyNodes :: "Node list \<Rightarrow> Node list" where
  "keyNodes [] = []"
| "keyNodes [k] = [k]"
| "keyNodes (k # v # rest) = k # keyNodes rest"

definition keysOf :: "Node \<Rightarrow> string list" where
  "keysOf n = map Value (keyNodes (Content n))"

text \<open>
  What one rule appends to the output's content (nothing, or a key and a value), and the
  concatenation over the rules up to the first failure. \<open>rulesLoop_entries\<close> proves that
  this is what \<open>rulesLoop\<close> computes.
\<close>

definition entry :: "IncludeConfigItem \<Rightarrow> Node \<Rightarrow> error + Node list" where
  "entry rule inputNode =
     (case firstPair (Content inputNode) (Key rule) of
        Inl e \<Rightarrow> Inl e
      | Inr None \<Rightarrow> Inr []
      | Inr (Some (k, v)) \<Rightarrow>
          (if Include rule = [] then Inr [k, v]
           else (case filterByRules (Include rule) v zeroNode of
                   Inl e \<Rightarrow> Inl e
                 | Inr n \<Rightarrow> Inr [k, n])))"

fun entries :: "IncludeConfigItem list \<Rightarrow> Node \<Rightarrow> error + Node list" where
  "entries [] inputNode = Inr []"
| "entries (r # rs) inputNode =
     (case entry r inputNode of
        Inl e \<Rightarrow> Inl e
      | Inr es \<Rightarrow> (case entries rs inputNode of Inl e \<Rightarrow> Inl e | Inr es' \<Rightarrow> Inr (es @ es')))"

text \<open>
  A tree as the parser builds it: the content of every mapping node below it, itself
  included, is a sequence of pairs.
\<close>

fun wellFormed :: "Node \<Rightarrow> bool" where
  "wellFormed (Node kd st tg v an al c hc lc fc ln col) =
     ((kd = MappingNode \<longrightarrow> even (length c)) \<and> (\<forall>x \<in> set c. wellFormed x))"

text \<open>
  The nested call a call makes along a path of rules. \<open>callAt rules inputNode [i, j, ...]\<close>:
  the input is a mapping, the rules before the rule \<open>i\<close> pass, the scan for the key of rule
  \<open>i\<close> ends at a pair and the rule has nested rules, so \<open>filterByRules\<close> is called on
  the nested rules and the matched value; from there the path goes on with \<open>j\<close>. The result
  is the rules and the input node of the call at the end of the path.
\<close>

fun callAt :: "IncludeConfigItem list \<Rightarrow> Node \<Rightarrow> nat list
    \<Rightarrow> (IncludeConfigItem list \<times> Node) option" where
  "callAt rules inputNode [] = Some (rules, inputNode)"
| "callAt rules inputNode (i # path) =
     (if Kind inputNode = MappingNode \<and> i < length rules then
        (case rulesLoop (take i rules) inputNode zeroNode of
           Inl e \<Rightarrow> None
         | Inr passed \<Rightarrow>
             (case scan (Content inputNode) 0 (Key (rules ! i)) of
                Inr (Some (keyNode, valueNode)) \<Rightarrow>
                  if length (Include (rules ! i)) > 0
                  then callAt (Include (rules ! i)) valueNode path else None
              | _ \<Rightarrow> None))
      else None)"

text \<open>No two sibling rules share a key, at every level of the forest.\<close>

fun distinctKeys :: "IncludeConfigItem list \<Rightarrow> bool" where
  "distinctKeys [] = True"
| "distinctKeys (IncludeConfigItem key incl # rules) =
     (key \<notin> set (map Key rules) \<and> distinctKeys incl \<and> distinctKeys rules)"

text \<open>
  What the proof of idempotence needs from an equivalence of trees that the library's
  parser and encoder respect: equivalent nodes are both mappings or both not, equivalent
  mappings have pairwise equivalent contents, equivalent nodes have the same text, and
  the mapping nodes \<open>filterByRules\<close> builds from equivalent parts are equivalent.
\<close>

definition libEquiv :: "(Node \<Rightarrow> Node \<Rightarrow> bool) \<Rightarrow> bool" where
  "libEquiv eqv \<longleftrightarrow>
     (\<forall>n m. eqv n m \<longrightarrow> (Kind n = MappingNode \<longleftrightarrow> Kind m = MappingNode))
   \<and> (\<forall>n m. eqv n m \<longrightarrow> Kind n = MappingNode \<longrightarrow> list_all2 eqv (Content n) (Content m))
   \<and> (\<forall>n m. eqv n m \<longrightarrow> Value n = Value m)
   \<and> (\<forall>n m cs ds. eqv n m \<longrightarrow> list_all2 eqv cs ds \<longrightarrow> (Content n = [] \<longrightarrow> cs = []) \<longrightarrow>
         eqv (Node MappingNode (Style n) [] [] [] None cs [] [] [] 0 0)
             (Node MappingNode (Style m) [] [] [] None ds [] [] [] 0 0))"

section \<open>Example documents\<close>

text \<open>
  Nodes as the parser builds them for plain scalars and block mappings (tag, text, line,
  column), the document node around a parsed tree, and a rule with no nested rules.
\<close>

definition scalar :: "string \<Rightarrow> string \<Rightarrow> int \<Rightarrow> int \<Rightarrow> Node" where
  "scalar tg v ln col = Node ScalarNode 0 tg v [] None [] [] [] [] ln col"

definition mapping :: "Node list \<Rightarrow> int \<Rightarrow> int \<Rightarrow> Node" where
  "mapping c ln col = Node MappingNode 0 ''!!map'' [] [] None c [] [] [] ln col"

definition document :: "Node list \<Rightarrow> Node" where
  "document c = Node DocumentNode 0 [] [] [] None c [] [] [] 1 1"

definition leaf :: "string \<Rightarrow> IncludeConfigItem" where
  "leaf k = IncludeConfigItem k []"

definition nl :: string where
  "nl = [CHR 0x0A]"

text \<open>Two keys, asked for in the opposite order.\<close>

definition abInput :: Node where
  "abInput = mapping [scalar ''!!str'' ''a'' 1 1, scalar ''!!int'' ''1'' 1 4,
                      scalar ''!!str'' ''b'' 2 1, scalar ''!!int'' ''2'' 2 4] 1 1"

text \<open>
  The input of the test "nested filtering" (filterByRules test, and scenario 2 of the
  specification), its text, and the rules of that test.
\<close>

definition configInput :: Node where
  "configInput = mapping
     [scalar ''!!str'' ''cache'' 1 1,
      mapping [scalar ''!!str'' ''enabled'' 2 3, scalar ''!!bool'' ''true'' 2 12] 2 3,
      scalar ''!!str'' ''database'' 3 1,
      mapping [scalar ''!!str'' ''host'' 4 3, scalar ''!!str'' ''localhost'' 4 9,
               scalar ''!!str'' ''port'' 5 3, scalar ''!!int'' ''5432'' 5 9,
               scalar ''!!str'' ''credentials'' 6 3,
               mapping [scalar ''!!str'' ''username'' 7 5, scalar ''!!str'' ''user'' 7 15,
                        scalar ''!!str'' ''password'' 8 5, scalar ''!!str'' ''pass'' 8 15] 7 5] 4 3]
     1 1"

definition configDoc :: bytes where
  "configDoc = ''cache:'' @ nl @ ''  enabled: true'' @ nl @ ''database:'' @ nl
     @ ''  host: localhost'' @ nl @ ''  port: 5432'' @ nl @ ''  credentials:'' @ nl
     @ ''    username: user'' @ nl @ ''    password: pass'' @ nl"

definition nestedRules :: "IncludeConfigItem list" where
  "nestedRules = [IncludeConfigItem ''database''
     [leaf ''host'', IncludeConfigItem ''credentials'' [leaf ''username'']]]"

text \<open>What \<open>project nestedRules configInput\<close> returns, its text, and the text parsed again.\<close>

definition nestedOutput :: Node where
  "nestedOutput = Node MappingNode 0 [] [] [] None
     [scalar ''!!str'' ''database'' 3 1,
      Node MappingNode 0 [] [] [] None
        [scalar ''!!str'' ''host'' 4 3, scalar ''!!str'' ''localhost'' 4 9,
         scalar ''!!str'' ''credentials'' 6 3,
         Node MappingNode 0 [] [] [] None
           [scalar ''!!str'' ''username'' 7 5, scalar ''!!str'' ''user'' 7 15] [] [] [] 0 0]
        [] [] [] 0 0]
     [] [] [] 0 0"

definition nestedDoc :: bytes where
  "nestedDoc = ''database:'' @ nl @ ''  host: localhost'' @ nl @ ''  credentials:'' @ nl
     @ ''    username: user'' @ nl"

definition nestedReread :: Node where
  "nestedReread = mapping
     [scalar ''!!str'' ''database'' 1 1,
      mapping [scalar ''!!str'' ''host'' 2 3, scalar ''!!str'' ''localhost'' 2 9,
               scalar ''!!str'' ''credentials'' 3 3,
               mapping [scalar ''!!str'' ''username'' 4 5, scalar ''!!str'' ''user'' 4 15] 4 5] 2 3]
     1 1"

text \<open>Scenario 4 of the specification: a scalar where the rules expect a mapping, at two places.\<close>

definition shapeInput :: Node where
  "shapeInput = mapping [scalar ''!!str'' ''database'' 1 1, scalar ''!!str'' ''localhost'' 1 11] 1 1"

definition shapeInputLater :: Node where
  "shapeInputLater = mapping
     [scalar ''!!str'' ''cache'' 1 1, scalar ''!!str'' ''on'' 1 8,
      scalar ''!!str'' ''database'' 2 1, scalar ''!!str'' ''localhost'' 2 11] 1 1"

definition shapeDoc :: bytes where
  "shapeDoc = ''cache: on'' @ nl @ ''database: localhost'' @ nl"

definition shapeRules :: "IncludeConfigItem list" where
  "shapeRules = [IncludeConfigItem ''database'' [leaf ''host'']]"

text \<open>A flow mapping, \<open>{a: 1}\<close>.\<close>

definition flowInput :: Node where
  "flowInput = Node MappingNode FlowStyle ''!!map'' [] [] None
     [scalar ''!!str'' ''a'' 1 2, scalar ''!!int'' ''1'' 1 5] [] [] [] 1 1"

text \<open>
  Two rules with the same key, the first with nested rules: the document, its tree, the
  output of one run with its text, that text parsed again, and the text of a second run.
\<close>

definition deepRules :: "IncludeConfigItem list" where
  "deepRules = [IncludeConfigItem ''database'' [IncludeConfigItem ''credentials''
     [IncludeConfigItem ''username'' [leaf ''x'']]]]"

definition dupRules :: "IncludeConfigItem list" where
  "dupRules = [IncludeConfigItem ''a'' [leaf ''x''], leaf ''a'']"

definition dupDoc :: bytes where
  "dupDoc = ''a:'' @ nl @ ''  x: 1'' @ nl @ ''  y: 2'' @ nl"

definition dupInput :: Node where
  "dupInput = mapping
     [scalar ''!!str'' ''a'' 1 1,
      mapping [scalar ''!!str'' ''x'' 2 3, scalar ''!!int'' ''1'' 2 6,
               scalar ''!!str'' ''y'' 3 3, scalar ''!!int'' ''2'' 3 6] 2 3] 1 1"

definition dupOutput :: Node where
  "dupOutput = Node MappingNode 0 [] [] [] None
     [scalar ''!!str'' ''a'' 1 1,
      Node MappingNode 0 [] [] [] None
        [scalar ''!!str'' ''x'' 2 3, scalar ''!!int'' ''1'' 2 6] [] [] [] 0 0,
      scalar ''!!str'' ''a'' 1 1,
      mapping [scalar ''!!str'' ''x'' 2 3, scalar ''!!int'' ''1'' 2 6,
               scalar ''!!str'' ''y'' 3 3, scalar ''!!int'' ''2'' 3 6] 2 3]
     [] [] [] 0 0"

definition dupOnce :: bytes where
  "dupOnce = ''a:'' @ nl @ ''  x: 1'' @ nl @ ''a:'' @ nl @ ''  x: 1'' @ nl @ ''  y: 2'' @ nl"

definition dupReread :: Node where
  "dupReread = mapping
     [scalar ''!!str'' ''a'' 1 1,
      mapping [scalar ''!!str'' ''x'' 2 3, scalar ''!!int'' ''1'' 2 6] 2 3,
      scalar ''!!str'' ''a'' 3 1,
      mapping [scalar ''!!str'' ''x'' 4 3, scalar ''!!int'' ''1'' 4 6,
               scalar ''!!str'' ''y'' 5 3, scalar ''!!int'' ''2'' 5 6] 4 3] 1 1"

definition dupTwice :: bytes where
  "dupTwice = ''a:'' @ nl @ ''  x: 1'' @ nl @ ''a:'' @ nl @ ''  x: 1'' @ nl"

text \<open>A store with the tree of \<open>{a: 1, b: {x: 2, y: 3}}\<close> in its cells 0 to 8.\<close>

definition mkCell :: "Kind \<Rightarrow> string \<Rightarrow> string \<Rightarrow> ptr list \<Rightarrow> int \<Rightarrow> int \<Rightarrow> cell" where
  "mkCell kd tg v c ln col = zeroCell\<lparr>cKind := kd, cTag := tg, cValue := v, cContent := c,
     cLine := ln, cColumn := col\<rparr>"

definition exampleStore :: store where
  "exampleStore =
     [mkCell MappingNode ''!!map'' [] [Some 1, Some 2, Some 3, Some 4] 1 1,
      mkCell ScalarNode ''!!str'' ''a'' [] 1 1,
      mkCell ScalarNode ''!!int'' ''1'' [] 1 4,
      mkCell ScalarNode ''!!str'' ''b'' [] 2 1,
      mkCell MappingNode ''!!map'' [] [Some 5, Some 6, Some 7, Some 8] 3 3,
      mkCell ScalarNode ''!!str'' ''x'' [] 3 3,
      mkCell ScalarNode ''!!int'' ''2'' [] 3 6,
      mkCell ScalarNode ''!!str'' ''y'' [] 4 3,
      mkCell ScalarNode ''!!int'' ''3'' [] 4 6]"

text \<open>
  A stand-in for the library on these documents. The encoder writes block mappings of
  plain scalars with an indentation of two spaces and an empty mapping as \<open>{}\<close>; the
  parser is the table of the texts above, and leaves the root node at its zero value on
  an empty input. \<open>manyDocs\<close> is a text with two documents; \<^verbatim>\<open>yaml.Unmarshal\<close> decodes the
  first document of a text and stops, so the root it fills has that document,
  \<open>firstOfMany\<close>, as its only child.
\<close>

fun emit :: "nat \<Rightarrow> Node list \<Rightarrow> string" where
  "emit ind [] = []"
| "emit ind [k] = []"
| "emit ind (k # Node kd st tg v an al c hc lc fc ln col # rest) =
     replicate ind (CHR '' '') @ Value k @ '':''
     @ (if kd = MappingNode \<and> c \<noteq> [] then nl @ emit (ind + 2) c
        else '' '' @ (if kd = MappingNode then ''{}'' else v) @ nl)
     @ emit ind rest"

definition exampleEncode :: "Node \<Rightarrow> string + bytes" where
  "exampleEncode n =
     (if Kind n \<noteq> MappingNode then Inl ''not a block mapping''
      else if Content n = [] then Inr (''{}'' @ nl)
      else Inr (emit 0 (Content n)))"

definition manyDocs :: bytes where
  "manyDocs = ''a: 1'' @ nl @ ''---'' @ nl @ ''b: 2'' @ nl"

definition firstOfMany :: Node where
  "firstOfMany = mapping [scalar ''!!str'' ''a'' 1 1, scalar ''!!int'' ''1'' 1 4] 1 1"

definition exampleUnmarshal :: "bytes \<Rightarrow> string + Node" where
  "exampleUnmarshal b =
     (if b = [] then Inr zeroNode
      else if b = configDoc then Inr (document [configInput])
      else if b = nestedDoc then Inr (document [nestedReread])
      else if b = dupDoc then Inr (document [dupInput])
      else if b = dupOnce then Inr (document [dupReread])
      else if b = shapeDoc then Inr (document [shapeInputLater])
      else if b = manyDocs then Inr (document [firstOfMany])
      else Inl ''yaml: not one of the example documents'')"

text \<open>
  Equality of trees up to what parsing an encoded tree again changes: tags, anchors,
  comments and positions are ignored; kind, style, text and content are compared.
\<close>

fun sameText :: "Node \<Rightarrow> Node \<Rightarrow> bool"
  and sameTexts :: "Node list \<Rightarrow> Node list \<Rightarrow> bool" where
  "sameText (Node kd st tg v an al c hc lc fc ln col)
            (Node kd' st' tg' v' an' al' c' hc' lc' fc' ln' col') =
     (kd = kd' \<and> st = st' \<and> v = v' \<and> sameTexts c c')"
| "sameTexts [] [] = True"
| "sameTexts (x # xs) (y # ys) = (sameText x y \<and> sameTexts xs ys)"
| "sameTexts [] (y # ys) = False"
| "sameTexts (x # xs) [] = False"

section \<open>The scan and the rule loop\<close>

text \<open>The scan by index is the scan of the remaining slice.\<close>

lemma scan_drop: "scan content i key = firstPair (drop i content) key"
proof (induction content i key rule: scan.induct)
  case (1 content i key)
  show ?case
  proof (cases "i < length content")
    case False
    then show ?thesis by (simp add: scan.simps)
  next
    case True
    note i = this
    show ?thesis
    proof (cases "i + 1 < length content")
      case False
      with i have "drop i content = [content ! i]"
        by (metis Cons_nth_drop_Suc Suc_eq_plus1 drop_all not_less)
      with i False show ?thesis by (simp add: scan.simps)
    next
      case True
      then have d: "drop i content = content ! i # content ! (i + 1) # drop (i + 2) content"
        using i by (metis Cons_nth_drop_Suc Suc_eq_plus1 add_2_eq_Suc')
      show ?thesis
        using i True 1 by (subst scan.simps) (simp add: d Let_def)
    qed
  qed
qed

subsection \<open>The rule loop appends the entries of the rules\<close>

lemma sel_setKind [simp]:
  "Kind (setKind k n) = k" "Style (setKind k n) = Style n" "Content (setKind k n) = Content n"
  by (cases n; simp)+

lemma sel_setStyle [simp]:
  "Kind (setStyle s n) = Kind n" "Style (setStyle s n) = s" "Content (setStyle s n) = Content n"
  by (cases n; simp)+

lemma sel_extendContent [simp]:
  "Kind (extendContent es n) = Kind n" "Style (extendContent es n) = Style n"
  "Content (extendContent es n) = Content n @ es"
  by (cases n; simp)+

lemma appendContent_extend: "appendContent x n = extendContent [x] n"
  by (cases n) simp

lemma extendContent_Nil [simp]: "extendContent [] n = n"
  by (cases n) simp

lemma extendContent_twice [simp]: "extendContent es (extendContent ds n) = extendContent (ds @ es) n"
  by (cases n) simp

lemma rulesLoop_entries:
  "rulesLoop rules inputNode outputNode =
     (case entries rules inputNode of Inl e \<Rightarrow> Inl e | Inr es \<Rightarrow> Inr (extendContent es outputNode))"
proof (induction rules arbitrary: outputNode)
  case Nil
  show ?case by simp
next
  case (Cons r rs)
  obtain key incl where r: "r = IncludeConfigItem key incl" by (cases r)
  show ?case
    by (simp add: r entry_def scan_drop Cons.IH appendContent_extend
        split: sum.splits option.splits prod.splits)
qed

lemma filterByRules_entries:
  "filterByRules rules inputNode outputNode =
     (if Kind inputNode \<noteq> MappingNode then Inl (Fatal ''Input node is not a mapping node'')
      else case entries rules inputNode of
             Inl e \<Rightarrow> Inl e
           | Inr es \<Rightarrow> Inr (extendContent es (setStyle (Style inputNode) (setKind MappingNode outputNode))))"
  by (simp add: rulesLoop_entries)

subsection \<open>Keys of the input and of the output\<close>

lemma kinds_distinct [simp]:
  "ScalarNode \<noteq> MappingNode" "MappingNode \<noteq> ScalarNode" "(0::32 word) \<noteq> MappingNode"
  "SequenceNode \<noteq> MappingNode" "DocumentNode \<noteq> MappingNode" "AliasNode \<noteq> MappingNode"
  by (simp_all add: ScalarNode_def MappingNode_def SequenceNode_def DocumentNode_def AliasNode_def)

lemma firstPair_None:
  "firstPair cs key = Inr None \<Longrightarrow> key \<notin> Value ` set (keyNodes cs) \<and> even (length cs)"
  by (induction cs key rule: firstPair.induct) (auto split: if_splits)

lemma firstPair_Some:
  "firstPair cs key = Inr (Some (k, v)) \<Longrightarrow> Value k = key \<and> k \<in> set (keyNodes cs)"
  by (induction cs key rule: firstPair.induct) (auto split: if_splits)

lemma firstPair_Inl:
  "firstPair cs key = Inl e \<Longrightarrow> odd (length cs) \<and> e = IndexOutOfRange"
  by (induction cs key rule: firstPair.induct) (auto split: if_splits)

lemma firstPair_absent:
  "even (length cs) \<Longrightarrow> key \<notin> Value ` set (keyNodes cs) \<Longrightarrow> firstPair cs key = Inr None"
  by (induction cs key rule: firstPair.induct) auto

lemma keyNodes_append:
  "even (length as) \<Longrightarrow> keyNodes (as @ bs) = keyNodes as @ keyNodes bs"
  by (induction as rule: keyNodes.induct) auto

lemma entry_keys:
  assumes "entry r inputNode = Inr es"
  shows "map Value (keyNodes es) = (if Key r \<in> set (keysOf inputNode) then [Key r] else [])
         \<and> even (length es)"
proof (cases "firstPair (Content inputNode) (Key r)")
  case (Inl e)
  with assms show ?thesis by (simp add: entry_def)
next
  case (Inr m)
  show ?thesis
  proof (cases m)
    case None
    with Inr assms firstPair_None [of "Content inputNode" "Key r"] show ?thesis
      by (simp add: entry_def keysOf_def)
  next
    case (Some kv)
    obtain k v where kv: "kv = (k, v)" by (cases kv)
    from Inr Some kv have fp: "firstPair (Content inputNode) (Key r) = Inr (Some (k, v))" by simp
    from firstPair_Some [OF fp] have "Value k = Key r" "Key r \<in> set (keysOf inputNode)"
      by (auto simp: keysOf_def intro: rev_image_eqI)
    moreover from assms fp have "\<exists>n. es = [k, n]"
      by (auto simp: entry_def simp del: filterByRules.simps split: if_splits sum.splits)
    ultimately show ?thesis by auto
  qed
qed

lemma entries_keys:
  "entries rules inputNode = Inr es \<Longrightarrow>
     map Value (keyNodes es) = filter (\<lambda>k. k \<in> set (keysOf inputNode)) (map Key rules)
     \<and> even (length es)"
proof (induction rules arbitrary: es)
  case Nil
  then show ?case by simp
next
  case (Cons r rs)
  from Cons.prems obtain e1 e2 where
    e: "entry r inputNode = Inr e1" "entries rs inputNode = Inr e2" "es = e1 @ e2"
    by (auto split: sum.splits)
  from entry_keys [OF e(1)] Cons.IH [OF e(2)] show ?case
    by (simp add: e(3) keyNodes_append)
qed

subsection \<open>Rules that match nothing\<close>

lemma entries_append:
  "entries (as @ bs) inputNode =
     (case entries as inputNode of
        Inl e \<Rightarrow> Inl e
      | Inr xs \<Rightarrow> (case entries bs inputNode of Inl e \<Rightarrow> Inl e | Inr ys \<Rightarrow> Inr (xs @ ys)))"
  by (induction as) (auto split: sum.splits)

lemma entry_absent:
  "even (length (Content inputNode)) \<Longrightarrow> Key r \<notin> set (keysOf inputNode) \<Longrightarrow> entry r inputNode = Inr []"
  by (simp add: entry_def keysOf_def firstPair_absent)

lemma entries_skip:
  assumes "entry r inputNode = Inr []"
  shows "entries (before @ r # after) inputNode = entries (before @ after) inputNode"
  using assms by (simp add: entries_append split: sum.splits)

lemma entries_all_absent:
  "even (length (Content inputNode)) \<Longrightarrow> \<forall>r \<in> set rules. Key r \<notin> set (keysOf inputNode)
     \<Longrightarrow> entries rules inputNode = Inr []"
  by (induction rules) (simp_all add: entry_absent)

subsection \<open>No read past the end of a sequence of pairs\<close>

lemma firstPair_Some_value:
  "firstPair cs key = Inr (Some (k, v)) \<Longrightarrow> v \<in> set cs \<and> k \<in> set cs"
  by (induction cs key rule: firstPair.induct) (auto split: if_splits)

lemma wellFormed_Content:
  "wellFormed n \<Longrightarrow> x \<in> set (Content n) \<Longrightarrow> wellFormed x"
  by (cases n) simp

lemma wellFormed_even:
  "wellFormed n \<Longrightarrow> Kind n = MappingNode \<Longrightarrow> even (length (Content n))"
  by (cases n) simp

lemma scan_even_no_panic:
  "even (length content) \<Longrightarrow> scan content 0 key \<noteq> Inl e"
  using firstPair_Inl [of content key e] by (auto simp: scan_drop)

lemma no_panic_mutual:
  "(wellFormed inputNode \<longrightarrow> filterByRules rules inputNode outputNode \<noteq> Inl IndexOutOfRange)"
  "(wellFormed inputNode' \<longrightarrow> Kind inputNode' = MappingNode \<longrightarrow>
      rulesLoop rules' inputNode' outputNode' \<noteq> Inl IndexOutOfRange)"
proof (induction rules inputNode outputNode and rules' inputNode' outputNode'
    rule: filterByRules_rulesLoop.induct)
  case (1 rules inputNode outputNode)
  then show ?case by simp
next
  case (2 inputNode outputNode)
  show ?case by simp
next
  case (3 key incl rules inputNode outputNode)
  show ?case
  proof (intro impI)
    assume wf: "wellFormed inputNode" and k: "Kind inputNode = MappingNode"
    have ev: "even (length (Content inputNode))" using wf k by (rule wellFormed_even)
    show "rulesLoop (IncludeConfigItem key incl # rules) inputNode outputNode \<noteq> Inl IndexOutOfRange"
    proof (cases "scan (Content inputNode) 0 key")
      case (Inl e)
      with scan_even_no_panic [OF ev] show ?thesis by blast
    next
      case (Inr m)
      show ?thesis
      proof (cases m)
        case None
        with Inr 3(1) wf k show ?thesis by simp
      next
        case (Some kv)
        obtain keyNode valueNode where kv: "kv = (keyNode, valueNode)" by (cases kv)
        note sc = Inr [unfolded Some kv]
        from sc have "valueNode \<in> set (Content inputNode)"
          using firstPair_Some_value [of "Content inputNode" key keyNode valueNode]
          by (simp add: scan_drop)
        with wf have wfv: "wellFormed valueNode" by (rule wellFormed_Content)
        show ?thesis
        proof (cases "length incl > 0")
          case False
          with sc 3(4) [OF sc refl refl] wf k show ?thesis by simp
        next
          case True
          note a = 3(2) [OF sc refl refl True]
          show ?thesis
          proof (cases "filterByRules incl valueNode zeroNode")
            case (Inl e)
            with a wfv have "e \<noteq> IndexOutOfRange" by auto
            with sc True Inl show ?thesis by simp
          next
            case (Inr nested)
            from 3(3) [OF sc refl refl True Inr] wf k sc True Inr show ?thesis by simp
          qed
        qed
      qed
    qed
  qed
qed

lemma entries_Inl:
  "entries rules inputNode = Inl e \<Longrightarrow> \<exists>r \<in> set rules. entry r inputNode = Inl e"
  by (induction rules) (auto split: sum.splits)

lemma entry_Inl_even:
  assumes "entry r inputNode = Inl e" and "even (length (Content inputNode))"
  shows "\<exists>k v. scan (Content inputNode) 0 (Key r) = Inr (Some (k, v)) \<and> Include r \<noteq> []
           \<and> filterByRules (Include r) v zeroNode = Inl e"
proof (cases "firstPair (Content inputNode) (Key r)")
  case (Inl e')
  with firstPair_Inl [OF Inl] assms(2) show ?thesis by simp
next
  case (Inr m)
  with assms(1) show ?thesis
    by (cases m) (auto simp: entry_def scan_drop simp del: filterByRules.simps
        split: if_splits sum.splits)
qed

lemma own_reads_in_bounds:
  assumes "even (length (Content inputNode))"
    and "rulesLoop rules inputNode outputNode = Inl e"
  shows "\<exists>r \<in> set rules. \<exists>k v. scan (Content inputNode) 0 (Key r) = Inr (Some (k, v))
           \<and> Include r \<noteq> [] \<and> filterByRules (Include r) v zeroNode = Inl e"
proof -
  from assms(2) have "entries rules inputNode = Inl e"
    by (simp add: rulesLoop_entries split: sum.splits)
  then obtain r where "r \<in> set rules" "entry r inputNode = Inl e"
    using entries_Inl by blast
  with entry_Inl_even [OF _ assms(1)] show ?thesis by blast
qed

subsection \<open>The place and the key node of an entry\<close>

lemma entries_length:
  "entries rules inputNode = Inr es \<Longrightarrow>
     length es = 2 * length (filter (\<lambda>r. Key r \<in> set (keysOf inputNode)) rules)"
proof -
  assume a: "entries rules inputNode = Inr es"
  from entries_keys [OF a] have k: "map Value (keyNodes es) = filter (\<lambda>k. k \<in> set (keysOf inputNode)) (map Key rules)"
    and ev: "even (length es)" by auto
  have kl: "\<And>xs::Node list. even (length xs) \<Longrightarrow> length xs = 2 * length (keyNodes xs)"
  proof -
    fix xs :: "Node list" show "even (length xs) \<Longrightarrow> length xs = 2 * length (keyNodes xs)"
      by (induction xs rule: keyNodes.induct) auto
  qed
  have "length (keyNodes es) = length (filter (\<lambda>k. k \<in> set (keysOf inputNode)) (map Key rules))"
    using k by (metis length_map)
  also have "\<dots> = length (filter (\<lambda>r. Key r \<in> set (keysOf inputNode)) rules)"
    by (simp add: filter_map o_def)
  finally show ?thesis using kl [OF ev] by simp
qed

lemma entries_split:
  assumes "entries (before @ r # after) inputNode = Inr es"
  obtains xs ys zs where "entries before inputNode = Inr xs" "entry r inputNode = Inr ys"
    "entries after inputNode = Inr zs" "es = xs @ ys @ zs"
  using assms by (auto simp: entries_append split: sum.splits)

lemma project_Inr:
  assumes "project rules inputNode = Inr outputNode"
  obtains es where "Kind inputNode = MappingNode" "entries rules inputNode = Inr es"
    "outputNode = Node MappingNode (Style inputNode) [] [] [] None es [] [] [] 0 0"
  using assms
  by (auto simp: project_def filterByRules_entries zeroNode_def simp del: filterByRules.simps
      split: if_splits sum.splits)

lemma entry_keyNodes_first:
  assumes "entry r inputNode = Inr es"
  shows "\<forall>kn \<in> set (keyNodes es). \<exists>v. scan (Content inputNode) 0 (Value kn) = Inr (Some (kn, v))"
proof (cases "firstPair (Content inputNode) (Key r)")
  case (Inl e)
  with assms show ?thesis by (simp add: entry_def)
next
  case (Inr m)
  show ?thesis
  proof (cases m)
    case None
    with Inr assms show ?thesis by (simp add: entry_def)
  next
    case (Some kv)
    obtain k v where kv: "kv = (k, v)" by (cases kv)
    from Inr Some kv have fp: "firstPair (Content inputNode) (Key r) = Inr (Some (k, v))" by simp
    from firstPair_Some [OF fp] have vk: "Value k = Key r" by simp
    from assms fp have "\<exists>n. es = [k, n]"
      by (auto simp: entry_def simp del: filterByRules.simps split: if_splits sum.splits)
    with fp vk show ?thesis by (auto simp: scan_drop)
  qed
qed

lemma entries_keyNodes_first:
  "entries rules inputNode = Inr es \<Longrightarrow>
     \<forall>kn \<in> set (keyNodes es). \<exists>v. scan (Content inputNode) 0 (Value kn) = Inr (Some (kn, v))"
proof (induction rules arbitrary: es)
  case Nil
  then show ?case by simp
next
  case (Cons r rs)
  from Cons.prems obtain e1 e2 where
    e: "entry r inputNode = Inr e1" "entries rs inputNode = Inr e2" "es = e1 @ e2"
    by (auto split: sum.splits)
  from entry_keys [OF e(1)] have "even (length e1)" by simp
  then have "keyNodes es = keyNodes e1 @ keyNodes e2" by (simp add: e(3) keyNodes_append)
  with entry_keyNodes_first [OF e(1)] Cons.IH [OF e(2)] show ?case by auto
qed

subsection \<open>Projecting a projected tree, for rules with distinct keys\<close>

lemma distinctKeys_iff:
  "distinctKeys rules \<longleftrightarrow> distinct (map Key rules) \<and> (\<forall>r \<in> set rules. distinctKeys (Include r))"
proof (induction rules)
  case Nil
  show ?case by simp
next
  case (Cons r rs)
  then show ?case by (cases r) auto
qed

lemma size_Include:
  "r \<in> set rules \<Longrightarrow> size_list size (Include r) < size_list size rules"
proof (induction rules)
  case Nil
  then show ?case by simp
next
  case (Cons a rs)
  then show ?case by (cases a) auto
qed

lemma entry_shape:
  assumes "entry r inputNode = Inr es"
  shows "es = [] \<or> (\<exists>k n. es = [k, n] \<and> Value k = Key r)"
proof (cases "firstPair (Content inputNode) (Key r)")
  case (Inl e)
  with assms show ?thesis by (simp add: entry_def)
next
  case (Inr m)
  show ?thesis
  proof (cases m)
    case None
    with Inr assms show ?thesis by (simp add: entry_def)
  next
    case (Some kv)
    obtain k v where kv: "kv = (k, v)" by (cases kv)
    from Inr Some kv have fp: "firstPair (Content inputNode) (Key r) = Inr (Some (k, v))" by simp
    from firstPair_Some [OF fp] have vk: "Value k = Key r" by simp
    from assms fp have "\<exists>n. es = [k, n]"
      by (auto simp: entry_def simp del: filterByRules.simps split: if_splits sum.splits)
    with vk show ?thesis by auto
  qed
qed

lemma entries_keys_subset:
  assumes "entries rules inputNode = Inr es"
  shows "Value ` set (keyNodes es) \<subseteq> Key ` set rules"
proof -
  from entries_keys [OF assms]
  have "set (map Value (keyNodes es)) \<subseteq> set (map Key rules)"
    by (metis filter_is_subset)
  then show ?thesis by simp
qed

lemma firstPair_entries:
  assumes "distinct (map Key rules)" and "entries rules inputNode = Inr es"
    and "r \<in> set rules" and "entry r inputNode = Inr er"
  shows "firstPair es (Key r) = firstPair er (Key r)"
  using assms
proof (induction rules arbitrary: es)
  case Nil
  then show ?case by simp
next
  case (Cons a rs)
  from Cons.prems(2) obtain e1 e2 where
    e: "entry a inputNode = Inr e1" "entries rs inputNode = Inr e2" "es = e1 @ e2"
    by (auto split: sum.splits)
  from entries_keys [OF e(2)] have ev2: "even (length e2)" by simp
  show ?case
  proof (cases "r = a")
    case True
    with e(1) Cons.prems(4) have er: "er = e1" by simp
    from Cons.prems(1) True have "Key r \<notin> Key ` set rs" by simp
    with entries_keys_subset [OF e(2)] have "Key r \<notin> Value ` set (keyNodes e2)" by blast
    with ev2 have n2: "firstPair e2 (Key r) = Inr None" by (rule firstPair_absent)
    from entry_shape [OF e(1)] show ?thesis
      using n2 True by (auto simp: e(3) er)
  next
    case False
    with Cons.prems(3) have rin: "r \<in> set rs" by simp
    with Cons.prems(1) have ne: "Key a \<noteq> Key r" by auto
    from Cons.prems(1) have d: "distinct (map Key rs)" by simp
    have "firstPair (e1 @ e2) (Key r) = firstPair e2 (Key r)"
      using entry_shape [OF e(1)] ne by auto
    with Cons.IH [OF d e(2) rin Cons.prems(4)] show ?thesis by (simp add: e(3))
  qed
qed

lemma entries_cong:
  "(\<And>r. r \<in> set rules \<Longrightarrow> entry r a = entry r b) \<Longrightarrow> entries rules a = entries rules b"
proof (induction rules)
  case Nil
  show ?case by simp
next
  case (Cons x xs)
  have "entry x a = entry x b" by (rule Cons.prems) simp
  moreover have "entries xs a = entries xs b" by (rule Cons.IH, rule Cons.prems) simp
  ultimately show ?case by (simp split: sum.splits)
qed

lemma entries_each:
  "entries rules inputNode = Inr es \<Longrightarrow> r \<in> set rules \<Longrightarrow> \<exists>er. entry r inputNode = Inr er"
  by (induction rules arbitrary: es) (auto split: sum.splits)

lemma filterByRules_zero_Inr:
  assumes "filterByRules rules inputNode zeroNode = Inr outputNode"
  obtains es where "Kind inputNode = MappingNode" "entries rules inputNode = Inr es"
    "outputNode = Node MappingNode (Style inputNode) [] [] [] None es [] [] [] 0 0"
  using assms project_Inr [of rules inputNode outputNode] by (auto simp: project_def)

lemma filterByRules_idem:
  "distinctKeys rules \<Longrightarrow> filterByRules rules inputNode zeroNode = Inr outputNode \<Longrightarrow>
     filterByRules rules outputNode zeroNode = Inr outputNode"
proof (induction rules arbitrary: inputNode outputNode rule: measure_induct_rule [where f = "size_list size"])
  case (less rules)
  from less.prems(2) obtain es where m: "Kind inputNode = MappingNode"
    and es: "entries rules inputNode = Inr es"
    and out: "outputNode = Node MappingNode (Style inputNode) [] [] [] None es [] [] [] 0 0"
    by (rule filterByRules_zero_Inr)
  from less.prems(1) have dist: "distinct (map Key rules)"
    and dk: "\<And>r. r \<in> set rules \<Longrightarrow> distinctKeys (Include r)"
    using distinctKeys_iff [of rules] by blast+
  have each: "entry r outputNode = entry r inputNode" if rin: "r \<in> set rules" for r
  proof -
    from entries_each [OF es rin] obtain er where er: "entry r inputNode = Inr er" by blast
    from firstPair_entries [OF dist es rin er]
    have fp: "firstPair (Content outputNode) (Key r) = firstPair er (Key r)" by (simp add: out)
    have "entry r outputNode = Inr er"
    proof (cases "firstPair (Content inputNode) (Key r)")
      case (Inl e)
      with er show ?thesis by (simp add: entry_def)
    next
      case (Inr mm)
      show ?thesis
      proof (cases mm)
        case None
        with Inr er have "er = []" by (simp add: entry_def)
        with fp show ?thesis by (simp add: entry_def)
      next
        case (Some kv)
        obtain k v where kv: "kv = (k, v)" by (cases kv)
        from Inr Some kv have fpi: "firstPair (Content inputNode) (Key r) = Inr (Some (k, v))" by simp
        from firstPair_Some [OF fpi] have vk: "Value k = Key r" by simp
        show ?thesis
        proof (cases "Include r = []")
          case True
          with er fpi have ern: "er = [k, v]" by (simp add: entry_def)
          with fp vk have "firstPair (Content outputNode) (Key r) = Inr (Some (k, v))" by simp
          then show ?thesis using True by (simp add: entry_def ern)
        next
          case False
          with er fpi obtain n where n: "filterByRules (Include r) v zeroNode = Inr n" and ern: "er = [k, n]"
            by (auto simp: entry_def simp del: filterByRules.simps split: sum.splits)
          from less.IH [OF size_Include [OF rin] dk [OF rin] n]
          have idem: "filterByRules (Include r) n zeroNode = Inr n" .
          from fp vk ern have "firstPair (Content outputNode) (Key r) = Inr (Some (k, n))" by simp
          then show ?thesis using False idem by (simp add: entry_def ern del: filterByRules.simps)
        qed
      qed
    qed
    with er show ?thesis by simp
  qed
  from entries_cong [of rules outputNode inputNode, OF each] es
  have "entries rules outputNode = Inr es" by simp
  then show ?case
    by (simp add: filterByRules_entries out zeroNode_def del: filterByRules.simps)
qed

subsection \<open>Equivalent inputs give equivalent outputs\<close>

lemma firstPair_rel:
  assumes v: "\<And>x y. eqv x y \<Longrightarrow> Value x = Value y"
  shows "list_all2 eqv cs ds \<Longrightarrow>
     rel_sum (=) (rel_option (rel_prod eqv eqv)) (firstPair cs key) (firstPair ds key)"
proof (induction cs key arbitrary: ds rule: firstPair.induct)
  case (1 key)
  then show ?case by simp
next
  case (2 k key)
  then show ?case by (auto simp: list_all2_Cons1)
next
  case (3 k v rest key)
  from 3(2) obtain k' v' rest' where ds: "ds = k' # v' # rest'"
    and r: "eqv k k'" "eqv v v'" "list_all2 eqv rest rest'"
    by (auto simp: list_all2_Cons1)
  from assms [OF r(1)] have kv: "Value k = Value k'" .
  show ?case
  proof (cases "Value k = key")
    case True
    with kv r show ?thesis by (simp add: ds)
  next
    case False
    with kv 3(1) [OF False r(3)] show ?thesis by (simp add: ds)
  qed
qed

lemma entries_empty_content:
  "Content inputNode = [] \<Longrightarrow> entries rules inputNode = Inr []"
  by (induction rules) (simp_all add: entry_def)

lemma entries_rel:
  assumes "\<And>r. r \<in> set rules \<Longrightarrow> rel_sum (=) (list_all2 eqv) (entry r a) (entry r b)"
  shows "rel_sum (=) (list_all2 eqv) (entries rules a) (entries rules b)"
  using assms
proof (induction rules)
  case Nil
  show ?case by simp
next
  case (Cons x xs)
  have 1: "rel_sum (=) (list_all2 eqv) (entry x a) (entry x b)" by (rule Cons.prems) simp
  have 2: "rel_sum (=) (list_all2 eqv) (entries xs a) (entries xs b)"
    by (rule Cons.IH, rule Cons.prems) simp
  from 1 2 show ?case
    by (auto simp: rel_sum.simps list_all2_appendI)
qed

lemma filterByRules_rel:
  assumes le: "libEquiv eqv"
  shows "eqv n m \<Longrightarrow>
     rel_sum (=) eqv (filterByRules rules n zeroNode) (filterByRules rules m zeroNode)"
proof (induction rules arbitrary: n m rule: measure_induct_rule [where f = "size_list size"])
  case (less rules)
  note nm = less.prems
  from le have kind: "\<And>n m. eqv n m \<Longrightarrow> (Kind n = MappingNode \<longleftrightarrow> Kind m = MappingNode)"
    and cont: "\<And>n m. eqv n m \<Longrightarrow> Kind n = MappingNode \<Longrightarrow> list_all2 eqv (Content n) (Content m)"
    and val: "\<And>n m. eqv n m \<Longrightarrow> Value n = Value m"
    and build: "\<And>n m cs ds. eqv n m \<Longrightarrow> list_all2 eqv cs ds \<Longrightarrow> (Content n = [] \<longrightarrow> cs = []) \<Longrightarrow>
         eqv (Node MappingNode (Style n) [] [] [] None cs [] [] [] 0 0)
             (Node MappingNode (Style m) [] [] [] None ds [] [] [] 0 0)"
    unfolding libEquiv_def by blast+
  show ?case
  proof (cases "Kind n = MappingNode")
    case False
    with kind [OF nm] show ?thesis by simp
  next
    case True
    with kind [OF nm] have km: "Kind m = MappingNode" by simp
    from cont [OF nm True] have c: "list_all2 eqv (Content n) (Content m)" .
    have each: "rel_sum (=) (list_all2 eqv) (entry r n) (entry r m)" if rin: "r \<in> set rules" for r
    proof -
      from firstPair_rel [of eqv "Content n" "Content m" "Key r", OF val c]
      have fr: "rel_sum (=) (rel_option (rel_prod eqv eqv))
                  (firstPair (Content n) (Key r)) (firstPair (Content m) (Key r))" .
      show ?thesis
      proof (cases "firstPair (Content n) (Key r)")
        case (Inl e)
        with fr show ?thesis by (auto simp: entry_def rel_sum.simps)
      next
        case (Inr p)
        show ?thesis
        proof (cases p)
          case None
          with Inr fr show ?thesis by (auto simp: entry_def rel_sum.simps)
        next
          case (Some kv)
          obtain k v where kv: "kv = (k, v)" by (cases kv)
          from Inr Some kv fr obtain k' v' where
            fm: "firstPair (Content m) (Key r) = Inr (Some (k', v'))" and e: "eqv k k'" "eqv v v'"
            by (auto simp: rel_sum.simps option_rel_Some1)
          have fn: "firstPair (Content n) (Key r) = Inr (Some (k, v))" using Inr Some kv by simp
          show ?thesis
          proof (cases "Include r = []")
            case True
            with fn fm e show ?thesis by (simp add: entry_def)
          next
            case False
            from less.IH [OF size_Include [OF rin] e(2)]
            have "rel_sum (=) eqv (filterByRules (Include r) v zeroNode)
                    (filterByRules (Include r) v' zeroNode)" .
            with fn fm e False show ?thesis
              by (auto simp: entry_def rel_sum.simps simp del: filterByRules.simps)
          qed
        qed
      qed
    qed
    from entries_rel [of rules eqv n m, OF each]
    have er: "rel_sum (=) (list_all2 eqv) (entries rules n) (entries rules m)" .
    show ?thesis
    proof (cases "entries rules n")
      case (Inl e)
      with er True km show ?thesis
        by (auto simp: filterByRules_entries rel_sum.simps simp del: filterByRules.simps)
    next
      case (Inr es)
      with er obtain ds where ds: "entries rules m = Inr ds" and l: "list_all2 eqv es ds"
        by (auto simp: rel_sum.simps)
      have "Content n = [] \<longrightarrow> es = []"
        using entries_empty_content [of n rules] Inr by auto
      from build [OF nm l this] True km Inr ds show ?thesis
        by (simp add: filterByRules_entries zeroNode_def del: filterByRules.simps)
    qed
  qed
qed

section \<open>Failures of nested calls\<close>

lemma filterByRules_Inl_any_output:
  "filterByRules rules inputNode outputNode = Inl e \<Longrightarrow>
     filterByRules rules inputNode outputNode' = Inl e"
  by (auto simp: filterByRules_entries simp del: filterByRules.simps split: if_splits sum.splits)

lemma failure_reaches_caller:
  "callAt rules inputNode path = Some (rules', node) \<Longrightarrow>
     filterByRules rules' node zeroNode = Inl e \<Longrightarrow>
     filterByRules rules inputNode outputNode = Inl e"
proof (induction path arbitrary: rules inputNode outputNode)
  case Nil
  then show ?case by (auto simp del: filterByRules.simps intro: filterByRules_Inl_any_output)
next
  case (Cons i path)
  from Cons.prems(1) have m: "Kind inputNode = MappingNode" and i: "i < length rules"
    by (auto split: if_splits)
  from Cons.prems(1) m i obtain passed keyNode valueNode where
    p: "rulesLoop (take i rules) inputNode zeroNode = Inr passed"
    and sc: "scan (Content inputNode) 0 (Key (rules ! i)) = Inr (Some (keyNode, valueNode))"
    and ne: "Include (rules ! i) \<noteq> []"
    and go: "callAt (Include (rules ! i)) valueNode path = Some (rules', node)"
    by (auto split: sum.splits option.splits if_splits)
  from Cons.IH [OF go Cons.prems(2)]
  have "filterByRules (Include (rules ! i)) valueNode zeroNode = Inl e" .
  with sc ne have en: "entry (rules ! i) inputNode = Inl e"
    by (simp add: entry_def scan_drop del: filterByRules.simps)
  from p obtain xs where xs: "entries (take i rules) inputNode = Inr xs"
    by (auto simp: rulesLoop_entries split: sum.splits)
  have "rules = take i rules @ rules ! i # drop (Suc i) rules"
    using i by (rule id_take_nth_drop)
  then have "entries rules inputNode
               = entries (take i rules @ rules ! i # drop (Suc i) rules) inputNode" by simp
  also have "\<dots> = Inl e" using xs en by (simp add: entries_append)
  finally show ?case using m by (simp add: rulesLoop_entries)
qed

section \<open>The example library\<close>

lemma sameTexts_list_all2: "sameTexts xs ys = list_all2 sameText xs ys"
proof (induction xs arbitrary: ys)
  case Nil
  show ?case by (cases ys) simp_all
next
  case (Cons x xs)
  then show ?case by (cases ys) simp_all
qed

lemma sameText_iff:
  "sameText n m \<longleftrightarrow> Kind n = Kind m \<and> Style n = Style m \<and> Value n = Value m
     \<and> list_all2 sameText (Content n) (Content m)"
  by (cases n; cases m) (simp add: sameTexts_list_all2)

lemma libEquiv_sameText: "libEquiv sameText"
  unfolding libEquiv_def
proof (intro conjI allI impI)
  fix n m assume "sameText n m"
  then show "(Kind n = MappingNode) = (Kind m = MappingNode)" by (simp add: sameText_iff)
next
  fix n m assume "sameText n m"
  then show "list_all2 sameText (Content n) (Content m)" by (simp add: sameText_iff)
next
  fix n m assume "sameText n m"
  then show "Value n = Value m" by (simp add: sameText_iff)
next
  fix n m cs ds assume "sameText n m" "list_all2 sameText cs ds"
  then show "sameText (Node MappingNode (Style n) [] [] [] None cs [] [] [] 0 0)
    (Node MappingNode (Style m) [] [] [] None ds [] [] [] 0 0)"
    by (simp add: sameText_iff)
qed

lemma emit_sameText: "list_all2 sameText cs ds \<Longrightarrow> emit ind cs = emit ind ds"
proof (induction ind cs arbitrary: ds rule: emit.induct)
  case (1 ind)
  then show ?case by simp
next
  case (2 ind k)
  then show ?case by (auto simp: list_all2_Cons1)
next
  case (3 ind k kd st tg v an al c hc lc fc ln col rest)
  from 3(3) obtain k' v' rest' where ds: "ds = k' # v' # rest'"
    and r: "sameText k k'" "sameText (Node kd st tg v an al c hc lc fc ln col) v'"
      "list_all2 sameText rest rest'"
    by (auto simp: list_all2_Cons1)
  obtain kd' st' tg' w an' al' c' hc' lc' fc' ln' col'
    where v': "v' = Node kd' st' tg' w an' al' c' hc' lc' fc' ln' col'" by (cases v')
  from r(2) have e: "kd = kd'" "v = w" "list_all2 sameText c c'"
    by (simp_all add: v' sameTexts_list_all2)
  from e(3) have ce: "c = [] \<longleftrightarrow> c' = []" by (cases c; cases c') simp_all
  from r(1) have kk: "Value k = Value k'" by (simp add: sameText_iff)
  have rest: "emit ind rest = emit ind rest'" by (rule 3(2) [OF r(3)])
  show ?case
  proof (cases "kd = MappingNode \<and> c \<noteq> []")
    case True
    from 3(1) [OF True e(3)] True e ce kk rest show ?thesis by (simp add: ds v')
  next
    case False
    with e ce kk rest show ?thesis by (auto simp add: ds v')
  qed
qed

lemma exampleEncode_sameText: "sameText n m \<Longrightarrow> exampleEncode n = exampleEncode m"
proof -
  assume s: "sameText n m"
  then have k: "Kind n = Kind m" and c: "list_all2 sameText (Content n) (Content m)"
    by (simp_all add: sameText_iff)
  from c have "Content n = [] \<longleftrightarrow> Content m = []" by (cases "Content n"; cases "Content m") simp_all
  with k emit_sameText [OF c] show ?thesis by (simp add: exampleEncode_def)
qed

text \<open>
  A node of kind mapping whose content ends with a key that has no value: the scan for a
  key it does not find reads past the end. The parser builds no such node.
\<close>

lemma odd_content_panics:
  "project [leaf ''z''] (mapping [scalar ''!!str'' ''k'' 1 1] 1 1) = Inl IndexOutOfRange"
  by code_simp

section \<open>What a call writes to the store\<close>

lemma untouched_refl: "untouched p s s"
  by (simp add: untouched_def)

lemma untouched_trans: "untouched p s s1 \<Longrightarrow> untouched p s1 s2 \<Longrightarrow> untouched p s s2"
  by (auto simp: untouched_def)

lemma assign_untouched: "assign s p f = Some s1 \<Longrightarrow> untouched p s s1"
  by (auto simp: assign_def untouched_def split: option.splits if_splits)

lemma assign_length: "assign s p f = Some s1 \<Longrightarrow> length s1 = length s"
  by (auto simp: assign_def split: option.splits if_splits)

lemma new_untouched: "new s = (q, s1) \<Longrightarrow> untouched p s s1"
  by (auto simp: new_def untouched_def nth_append)

lemma nested_untouched:
  assumes "new s = (q, s1)" and "untouched q s1 s2"
  shows "untouched p s s2"
  using assms by (auto simp: new_def untouched_def nth_append)

lemma frame_mutual:
  "untouched outputNode s (storeAfter (hFilterByRules rules inputNode outputNode s))"
  "untouched outputNode' t (storeAfter (hRulesLoop rules' inputNode' outputNode' t))"
proof (induction rules inputNode outputNode s and rules' inputNode' outputNode' t
    rule: hFilterByRules_hRulesLoop.induct)
  case (1 rules inputNode outputNode s)
  show ?case
  proof (cases "deref s inputNode")
    case None
    then show ?thesis by (simp add: storeAfter_def untouched_refl)
  next
    case (Some inp)
    show ?thesis
    proof (cases "cKind inp \<noteq> MappingNode")
      case True
      with Some show ?thesis by (simp add: storeAfter_def untouched_refl)
    next
      case False
      show ?thesis
      proof (cases "assign s outputNode (cKind_update (\<lambda>_. MappingNode))")
        case None
        with Some False show ?thesis by (simp add: storeAfter_def untouched_refl)
      next
        case a1: (Some s1)
        note u1 = assign_untouched [OF a1]
        show ?thesis
        proof (cases "deref s1 inputNode")
          case None
          with Some False a1 u1 show ?thesis by (simp add: storeAfter_def)
        next
          case d1: (Some inp1)
          show ?thesis
          proof (cases "assign s1 outputNode (cStyle_update (\<lambda>_. cStyle inp1))")
            case None
            with Some False a1 d1 u1 show ?thesis by (simp add: storeAfter_def)
          next
            case a2: (Some s2)
            from 1 [OF Some False a1 d1 a2]
            have "untouched outputNode s2 (storeAfter (hRulesLoop rules inputNode outputNode s2))" .
            with u1 assign_untouched [OF a2]
            have "untouched outputNode s (storeAfter (hRulesLoop rules inputNode outputNode s2))"
              by (blast intro: untouched_trans)
            with Some False a1 d1 a2 show ?thesis by simp
          qed
        qed
      qed
    qed
  qed
next
  case (2 inputNode outputNode s)
  show ?case by (simp add: storeAfter_def untouched_refl)
next
  case (3 key incl rules inputNode outputNode s)
  show ?case
  proof (cases "hScan s inputNode 0 key")
    case (Inl e)
    then show ?thesis by (simp add: storeAfter_def untouched_refl)
  next
    case (Inr b)
    show ?thesis
    proof (cases b)
      case None
      with Inr 3(1) [OF Inr None] show ?thesis by simp
    next
      case (Some kv)
      obtain keyNode valueNode where kv: "(keyNode, valueNode) = kv" by (cases kv) auto
      note sc = Inr [unfolded Some kv [symmetric]]
      show ?thesis
      proof (cases "assign s outputNode (\<lambda>c. c\<lparr>cContent := cContent c @ [keyNode]\<rparr>)")
        case None
        with sc show ?thesis by (simp add: storeAfter_def untouched_refl)
      next
        case a1: (Some s1)
        note u1 = assign_untouched [OF a1]
        show ?thesis
        proof (cases "0 < length incl")
          case False
          show ?thesis
          proof (cases "assign s1 outputNode (\<lambda>c. c\<lparr>cContent := cContent c @ [valueNode]\<rparr>)")
            case None
            with sc a1 False u1 show ?thesis by (simp add: storeAfter_def)
          next
            case a2: (Some s2)
            from 3(4) [OF Inr Some kv a1 False a2] u1 assign_untouched [OF a2]
            have "untouched outputNode s (storeAfter (hRulesLoop rules inputNode outputNode s2))"
              by (blast intro: untouched_trans)
            with sc a1 False a2 show ?thesis by simp
          qed
        next
          case True
          obtain nested s2 where n: "(nested, s2) = new s1" by (cases "new s1") auto
          from 3(2) [OF Inr Some kv a1 True n]
          have un: "untouched nested s2 (storeAfter (hFilterByRules incl valueNode nested s2))" .
          with n [symmetric]
          have u3: "untouched outputNode s1 (storeAfter (hFilterByRules incl valueNode nested s2))"
            by (rule nested_untouched)
          show ?thesis
          proof (cases "hFilterByRules incl valueNode nested s2")
            case (Inl failure)
            with u1 u3 have "untouched outputNode s (storeAfter (Inl failure))"
              by (auto intro: untouched_trans)
            with sc a1 True n [symmetric] Inl show ?thesis
              by (simp del: hFilterByRules.simps)
          next
            case r3: (Inr s3)
            with u3 have u3': "untouched outputNode s1 s3" by (simp add: storeAfter_def)
            show ?thesis
            proof (cases "assign s3 outputNode (\<lambda>c. c\<lparr>cContent := cContent c @ [nested]\<rparr>)")
              case None
              with sc a1 True n [symmetric] r3 u1 u3' show ?thesis
                by (auto simp: storeAfter_def simp del: hFilterByRules.simps intro: untouched_trans)
            next
              case a4: (Some s4)
              from 3(3) [OF Inr Some kv a1 True n r3 a4] u1 u3' assign_untouched [OF a4]
              have "untouched outputNode s (storeAfter (hRulesLoop rules inputNode outputNode s4))"
                by (blast intro: untouched_trans)
              with sc a1 True n [symmetric] r3 a4 show ?thesis
                by (simp del: hFilterByRules.simps)
            qed
          qed
        qed
      qed
    qed
  qed
qed

lemma frame_Inr:
  "hFilterByRules rules inputNode outputNode s = Inr s' \<Longrightarrow> untouched outputNode s s'"
  using frame_mutual(1) [of outputNode s rules inputNode] by (simp add: storeAfter_def)

lemma hScan_members:
  "hScan s inputNode i key = Inr (Some (k, v)) \<Longrightarrow> deref s inputNode = Some inp \<Longrightarrow>
     k \<in> set (cContent inp) \<and> v \<in> set (cContent inp)"
proof (induction s inputNode i key rule: hScan.induct)
  case (1 s inputNode i key)
  note run = "1.prems"(1) and d = "1.prems"(2)
  from run d have b: "i < length (cContent inp)" "i + 1 < length (cContent inp)"
    by (subst (asm) hScan.simps, simp split: if_splits)+
  from run d b obtain kc where kc: "deref s (cContent inp ! i) = Some kc"
    by (subst (asm) hScan.simps) (simp add: Let_def split: option.splits)
  show ?case
  proof (cases "cValue kc = key")
    case True
    with run d b kc have "k = cContent inp ! i" "v = cContent inp ! (i + 1)"
      by (subst (asm) hScan.simps, simp add: Let_def)+
    with b show ?thesis by simp
  next
    case False
    with run d b kc have "hScan s inputNode (i + 2) key = Inr (Some (k, v))"
      by (subst (asm) hScan.simps) (simp add: Let_def)
    from "1.IH" [OF d b refl refl kc False this d] show ?thesis .
  qed
qed

lemma assign_nth:
  "assign s (Some a) f = Some s1 \<Longrightarrow> s1 ! a = f (s ! a) \<and> a < length s"
  by (auto simp: assign_def split: if_splits)

lemma untouched_nth:
  "untouched p s s' \<Longrightarrow> a < length s \<Longrightarrow> Some a \<noteq> p \<Longrightarrow> s' ! a = s ! a"
  by (simp add: untouched_def)

lemma untouched_length: "untouched p s s' \<Longrightarrow> length s \<le> length s'"
  by (simp add: untouched_def)

text \<open>
  The loop changes the output cell only in its content, by appending pointers found in
  the content of the input cell and pointers to new cells.
\<close>

lemma hRulesLoop_output:
  assumes "a < length s" and "b < length s" and "a \<noteq> b"
    and "hRulesLoop rules (Some b) (Some a) s = Inr s'"
  shows "\<exists>ps. s' ! a = (s ! a)\<lparr>cContent := cContent (s ! a) @ ps\<rparr>
           \<and> (\<forall>p \<in> set ps. p \<in> set (cContent (s ! b)) \<or> (\<exists>n \<ge> length s. p = Some n))"
  using assms
proof (induction rules arbitrary: s)
  case Nil
  then show ?case by (auto intro: exI [of _ "[]"])
next
  case (Cons r rules)
  obtain key incl where r: "r = IncludeConfigItem key incl" by (cases r)
  note run = Cons.prems(4) [unfolded r]
  have din: "deref s (Some b) = Some (s ! b)" using Cons.prems(2) by (simp add: deref_def)
  show ?case
  proof (cases "hScan s (Some b) 0 key")
    case (Inl e)
    with run show ?thesis by simp
  next
    case (Inr m)
    show ?thesis
    proof (cases m)
      case None
      with Inr run have "hRulesLoop rules (Some b) (Some a) s = Inr s'" by simp
      from Cons.IH [OF Cons.prems(1-3) this] show ?thesis .
    next
      case (Some kv)
      obtain keyNode valueNode where kv: "kv = (keyNode, valueNode)" by (cases kv)
      from hScan_members [OF Inr [unfolded Some kv] din]
      have mem: "keyNode \<in> set (cContent (s ! b))" "valueNode \<in> set (cContent (s ! b))" by simp_all
      from run Inr Some kv obtain s1 where
        s1: "assign s (Some a) (\<lambda>c. c\<lparr>cContent := cContent c @ [keyNode]\<rparr>) = Some s1"
        by (auto split: option.splits)
      from assign_nth [OF s1] have s1a: "s1 ! a = (s ! a)\<lparr>cContent := cContent (s ! a) @ [keyNode]\<rparr>"
        by simp
      have l1: "length s1 = length s" by (rule assign_length [OF s1])
      have s1b: "s1 ! b = s ! b"
        using untouched_nth [OF assign_untouched [OF s1] Cons.prems(2)] Cons.prems(3) by simp
      show ?thesis
      proof (cases "0 < length incl")
        case False
        with run Inr Some kv s1 obtain s2 where
          s2: "assign s1 (Some a) (\<lambda>c. c\<lparr>cContent := cContent c @ [valueNode]\<rparr>) = Some s2"
          and l: "hRulesLoop rules (Some b) (Some a) s2 = Inr s'"
          by (auto split: option.splits)
        have l2: "length s2 = length s" using assign_length [OF s2] l1 by simp
        from assign_nth [OF s2] s1a
        have s2a: "s2 ! a = (s ! a)\<lparr>cContent := cContent (s ! a) @ [keyNode, valueNode]\<rparr>" by simp
        have s2b: "s2 ! b = s ! b"
          using untouched_nth [OF assign_untouched [OF s2], of b] Cons.prems(2,3) l1 s1b by simp
        from Cons.IH [of s2] Cons.prems(1-3) l l2
        obtain ps where ps: "s' ! a = (s2 ! a)\<lparr>cContent := cContent (s2 ! a) @ ps\<rparr>"
          "\<forall>p \<in> set ps. p \<in> set (cContent (s2 ! b)) \<or> (\<exists>n \<ge> length s2. p = Some n)"
          by auto
        show ?thesis
          using ps mem s2a s2b l2
          by (intro exI [of _ "[keyNode, valueNode] @ ps"]) auto
      next
        case True
        obtain nested s2 where n: "new s1 = (nested, s2)" by (cases "new s1")
        then have nd: "nested = Some (length s)" "s2 = s1 @ [zeroCell]" by (auto simp: new_def l1)
        from run Inr Some kv s1 True n obtain s3 s4 where
          s3: "hFilterByRules incl valueNode nested s2 = Inr s3"
          and s4: "assign s3 (Some a) (\<lambda>c. c\<lparr>cContent := cContent c @ [nested]\<rparr>) = Some s4"
          and l: "hRulesLoop rules (Some b) (Some a) s4 = Inr s'"
          by (auto simp del: hFilterByRules.simps split: option.splits sum.splits prod.splits)
        from frame_Inr [OF s3] have u3: "untouched nested s2 s3" .
        have l3: "length s < length s3" using untouched_length [OF u3] nd l1 by simp
        have s3a: "s3 ! a = s1 ! a"
          using untouched_nth [OF u3, of a] Cons.prems(1) nd l1 by (simp add: nth_append)
        have s3b: "s3 ! b = s ! b"
          using untouched_nth [OF u3, of b] Cons.prems(2) nd l1 s1b by (simp add: nth_append)
        have l4: "length s4 = length s3" by (rule assign_length [OF s4])
        from assign_nth [OF s4] s3a s1a
        have s4a: "s4 ! a = (s ! a)\<lparr>cContent := cContent (s ! a) @ [keyNode, nested]\<rparr>" by simp
        have s4b: "s4 ! b = s ! b"
          using untouched_nth [OF assign_untouched [OF s4], of b] Cons.prems(2,3) l3 s3b by simp
        from Cons.IH [of s4] Cons.prems(1-3) l l3 l4
        obtain ps where ps: "s' ! a = (s4 ! a)\<lparr>cContent := cContent (s4 ! a) @ ps\<rparr>"
          "\<forall>p \<in> set ps. p \<in> set (cContent (s4 ! b)) \<or> (\<exists>n \<ge> length s4. p = Some n)"
          by auto
        have "\<forall>p \<in> set ([keyNode, nested] @ ps). p \<in> set (cContent (s ! b)) \<or> (\<exists>n \<ge> length s. p = Some n)"
          using ps(2) mem nd s4b l3 l4 by (auto intro: less_imp_le_nat order_trans)
        then show ?thesis
          using ps(1) s4a by (intro exI [of _ "[keyNode, nested] @ ps"]) auto
      qed
    qed
  qed
qed

lemma hFilterByRules_Inr:
  assumes "hFilterByRules rules inputNode outputNode s = Inr s'"
  obtains b a s2 where "inputNode = Some b" "b < length s" "cKind (s ! b) = MappingNode"
    "outputNode = Some a" "a < length s"
    "s2 = s[a := (s ! a)\<lparr>cKind := MappingNode, cStyle := cStyle (s[a := (s ! a)\<lparr>cKind := MappingNode\<rparr>] ! b)\<rparr>]"
    "hRulesLoop rules inputNode outputNode s2 = Inr s'"
proof -
  from assms obtain inp s1 inp1 s2 where
    a: "deref s inputNode = Some inp" "cKind inp = MappingNode"
       "assign s outputNode (cKind_update (\<lambda>_. MappingNode)) = Some s1"
       "deref s1 inputNode = Some inp1"
       "assign s1 outputNode (cStyle_update (\<lambda>_. cStyle inp1)) = Some s2"
    and l: "hRulesLoop rules inputNode outputNode s2 = Inr s'"
    by (auto split: option.splits if_splits)
  from a(1) obtain b where b: "inputNode = Some b" "b < length s" "inp = s ! b"
    by (auto simp: deref_def split: option.splits if_splits)
  from a(3) obtain a' where a': "outputNode = Some a'" "a' < length s"
    "s1 = s[a' := (s ! a')\<lparr>cKind := MappingNode\<rparr>]"
    by (auto simp: assign_def split: option.splits if_splits)
  from a(4) b a' have i1: "inp1 = s1 ! b" by (auto simp: deref_def split: if_splits)
  from a(5) a' have "s2 = s1[a' := (s1 ! a')\<lparr>cStyle := cStyle inp1\<rparr>]"
    by (auto simp: assign_def split: if_splits)
  with a' i1 have "s2 = s[a' := (s ! a')\<lparr>cKind := MappingNode, cStyle := cStyle (s[a' := (s ! a')\<lparr>cKind := MappingNode\<rparr>] ! b)\<rparr>]"
    by simp
  with that b a a' l show ?thesis by blast
qed

text \<open>
  \<open>filterByRules\<close> writes to the node \<open>outputNode\<close> points to and to nodes it creates, and
  to no other node, whichever node the caller passes and however the call ends.
\<close>

lemma filterByRules_writes_output_only:
  "length s \<le> length (storeAfter (hFilterByRules rules inputNode outputNode s))
   \<and> (\<forall>a < length s. Some a \<noteq> outputNode \<longrightarrow>
          storeAfter (hFilterByRules rules inputNode outputNode s) ! a = s ! a)"
  using frame_mutual(1) [of outputNode s rules inputNode] by (simp add: untouched_def)

section \<open>The functions on trees compute what the functions on the store compute\<close>

lemma reprA_mono_mutual:
  assumes "\<And>x. P x \<Longrightarrow> x < length s \<Longrightarrow> Q x"
  shows "reprA P s p n \<Longrightarrow> reprA Q s p n"
    and "reprsA P s ps ns \<Longrightarrow> reprsA Q s ps ns"
    and "reprAl P s q al \<Longrightarrow> reprAl Q s q al"
  using assms
  by (induction P s p n and P s ps ns and P s q al rule: reprA_reprsA_reprAl.induct) auto

lemma reprA_transfer_mutual:
  assumes "length s \<le> length s'" and "\<And>x. x < length s \<Longrightarrow> P x \<Longrightarrow> s' ! x = s ! x"
  shows "reprA P s p n \<Longrightarrow> reprA P s' p n"
    and "reprsA P s ps ns \<Longrightarrow> reprsA P s' ps ns"
    and "reprAl P s q al \<Longrightarrow> reprAl P s' q al"
  using assms
  by (induction P s p n and P s ps ns and P s q al rule: reprA_reprsA_reprAl.induct) auto

lemma reprA_mono:
  "reprA P s p n \<Longrightarrow> (\<And>x. P x \<Longrightarrow> Q x) \<Longrightarrow> reprA Q s p n"
  using reprA_mono_mutual(1) [of P s Q p n] by blast

lemma reprsA_mono:
  "reprsA P s ps ns \<Longrightarrow> (\<And>x. P x \<Longrightarrow> Q x) \<Longrightarrow> reprsA Q s ps ns"
  using reprA_mono_mutual(2) [of P s Q ps ns] by blast

lemma reprA_transfer:
  "reprA P s p n \<Longrightarrow> length s \<le> length s' \<Longrightarrow>
     (\<And>x. x < length s \<Longrightarrow> P x \<Longrightarrow> s' ! x = s ! x) \<Longrightarrow> reprA P s' p n"
  using reprA_transfer_mutual(1) [of s s' P p n] by blast

lemma reprsA_transfer:
  "reprsA P s ps ns \<Longrightarrow> length s \<le> length s' \<Longrightarrow>
     (\<And>x. x < length s \<Longrightarrow> P x \<Longrightarrow> s' ! x = s ! x) \<Longrightarrow> reprsA P s' ps ns"
  using reprA_transfer_mutual(2) [of s s' P ps ns] by blast

lemma reprsA_list_all2: "reprsA P s ps ns = list_all2 (reprA P s) ps ns"
proof (induction ps arbitrary: ns)
  case Nil
  show ?case by (cases ns) simp_all
next
  case (Cons p ps)
  then show ?case by (cases ns) simp_all
qed

lemma reprA_Some:
  assumes "reprA P s p n"
  obtains y where "p = Some y" "y < length s" "P y" "cKind (s ! y) = Kind n"
    "cStyle (s ! y) = Style n" "cValue (s ! y) = Value n"
    "reprsA P s (cContent (s ! y)) (Content n)"
  using assms by (cases p; cases n) auto

lemma reprA_below_wider:
  "reprA (\<lambda>x. x < N) s p n \<Longrightarrow> reprA (\<lambda>x. x < N \<or> a < x) s p n"
  by (erule reprA_mono) auto

lemma hScan_scan:
  "x < length s \<Longrightarrow> reprsA P s (cContent (s ! x)) c \<Longrightarrow>
     rel_sum (=) (rel_option (\<lambda>(k, v) (kn, vn). reprA P s k kn \<and> reprA P s v vn))
       (hScan s (Some x) i key) (scan c i key)"
proof (induction c i key rule: scan.induct)
  case (1 c i key)
  have d: "deref s (Some x) = Some (s ! x)" using "1.prems"(1) by (simp add: deref_def)
  from "1.prems"(2) have l2: "list_all2 (reprA P s) (cContent (s ! x)) c"
    by (simp add: reprsA_list_all2)
  then have len: "length (cContent (s ! x)) = length c" by (rule list_all2_lengthD)
  show ?case
  proof (cases "i + 1 < length c")
    case False
    with d len show ?thesis
      by (subst hScan.simps, subst scan.simps) simp
  next
    case True
    then have i: "i < length c" by simp
    from list_all2_nthD2 [OF l2 i] have rk: "reprA P s (cContent (s ! x) ! i) (c ! i)" .
    from list_all2_nthD2 [OF l2 True] have rv: "reprA P s (cContent (s ! x) ! (i + 1)) (c ! (i + 1))" .
    from rk obtain y where y: "cContent (s ! x) ! i = Some y" "y < length s"
      "cValue (s ! y) = Value (c ! i)"
      by (rule reprA_Some)
    then have dk: "deref s (cContent (s ! x) ! i) = Some (s ! y)" by (simp add: deref_def)
    show ?thesis
    proof (cases "Value (c ! i) = key")
      case True
      with d len i \<open>i + 1 < length c\<close> dk y(3) rk rv show ?thesis
        by (subst hScan.simps, subst scan.simps) (simp add: Let_def)
    next
      case False
      from "1.IH" [OF i \<open>i + 1 < length c\<close> refl refl False "1.prems"]
      have "rel_sum (=) (rel_option (\<lambda>(k, v) (kn, vn). reprA P s k kn \<and> reprA P s v vn))
              (hScan s (Some x) (i + 2) key) (scan c (i + 2) key)" .
      with False d len i \<open>i + 1 < length c\<close> dk y(3) show ?thesis
        by (subst hScan.simps, subst scan.simps) (simp add: Let_def)
    qed
  qed
qed

lemma sel_appendContent [simp]:
  "Kind (appendContent x n) = Kind n" "Style (appendContent x n) = Style n"
  "Tag (appendContent x n) = Tag n" "Value (appendContent x n) = Value n"
  "Anchor (appendContent x n) = Anchor n" "Alias (appendContent x n) = Alias n"
  "HeadComment (appendContent x n) = HeadComment n" "LineComment (appendContent x n) = LineComment n"
  "FootComment (appendContent x n) = FootComment n" "Line (appendContent x n) = Line n"
  "Column (appendContent x n) = Column n" "Content (appendContent x n) = Content n @ [x]"
  by (cases n; simp)+

lemma outCell_repr:
  assumes "outCell N a s out"
  shows "reprA (\<lambda>x. x < N \<or> a \<le> x) s (Some a) out"
proof -
  from assms have "reprsA (\<lambda>x. x < N \<or> a < x) s (cContent (s ! a)) (Content out)"
    by (simp add: outCell_def)
  then have "reprsA (\<lambda>x. x < N \<or> a \<le> x) s (cContent (s ! a)) (Content out)"
    by (rule reprsA_mono) auto
  with assms show ?thesis by (cases out) (simp add: outCell_def)
qed

lemma outCell_transfer:
  assumes "outCell N a s out" and "length s \<le> length s'"
    and "\<And>x. x < length s \<Longrightarrow> s' ! x = s ! x"
  shows "outCell N a s' out"
proof -
  from assms(1) have "reprsA (\<lambda>x. x < N \<or> a < x) s (cContent (s ! a)) (Content out)"
    by (simp add: outCell_def)
  then have "reprsA (\<lambda>x. x < N \<or> a < x) s' (cContent (s ! a)) (Content out)"
    by (rule reprsA_transfer) (simp_all add: assms(2,3))
  with assms show ?thesis by (simp add: outCell_def)
qed

lemma outCell_append:
  assumes "outCell N a s out" and "reprA (\<lambda>x. x < N \<or> a < x) s p n"
    and "assign s (Some a) (\<lambda>c. c\<lparr>cContent := cContent c @ [p]\<rparr>) = Some s1"
  shows "outCell N a s1 (appendContent n out)"
proof -
  from assms(3) have s1: "s1 = s[a := (s ! a)\<lparr>cContent := cContent (s ! a) @ [p]\<rparr>]" and a: "a < length s"
    by (auto simp: assign_def split: if_splits)
  from assms(1) have Na: "N \<le> a" by (simp add: outCell_def)
  have same: "s1 ! x = s ! x" if "x < length s" "x < N \<or> a < x" for x
  proof -
    from that(2) Na have "x \<noteq> a" by auto
    then show ?thesis by (simp add: s1)
  qed
  have len: "length s \<le> length s1" by (simp add: s1)
  from assms(1) have "reprsA (\<lambda>x. x < N \<or> a < x) s (cContent (s ! a)) (Content out)"
    by (simp add: outCell_def)
  then have 1: "reprsA (\<lambda>x. x < N \<or> a < x) s1 (cContent (s ! a)) (Content out)"
    by (rule reprsA_transfer) (rule len, rule same)
  from assms(2) have 2: "reprA (\<lambda>x. x < N \<or> a < x) s1 p n"
    by (rule reprA_transfer) (rule len, rule same)
  from 1 2 have "reprsA (\<lambda>x. x < N \<or> a < x) s1 (cContent (s ! a) @ [p]) (Content out @ [n])"
    by (simp add: reprsA_list_all2 list_all2_appendI)
  with assms(1) a show ?thesis by (simp add: outCell_def s1)
qed

lemma assign_below:
  assumes "assign s (Some a) f = Some s1" and "N \<le> a"
  shows "length s \<le> length s1" and "\<And>x. x < N \<Longrightarrow> x < length s \<Longrightarrow> s1 ! x = s ! x"
  using assms by (auto simp: assign_def split: if_splits)

text \<open>
  The simulation: from an input cell that leads to the tree \<open>T\<close>, the call on the store
  and the call on \<open>T\<close> end in the same failure, or the one leaves an output cell that
  leads to the node the other returns.
\<close>

lemma refine_mutual:
  "(\<forall>N T b a. inputNode = Some b \<and> outputNode = Some a \<and> reprA (\<lambda>x. x < N) s (Some b) T
        \<and> N \<le> a \<and> a < length s \<and> s ! a = zeroCell \<longrightarrow>
      rel_sum sameFailure (\<lambda>s' out'. outCell N a s' out')
        (hFilterByRules rules inputNode outputNode s) (filterByRules rules T zeroNode))"
  "(\<forall>N T b a out. inputNode' = Some b \<and> outputNode' = Some a \<and> reprA (\<lambda>x. x < N) t (Some b) T
        \<and> outCell N a t out \<longrightarrow>
      rel_sum sameFailure (\<lambda>s' out'. outCell N a s' out')
        (hRulesLoop rules' inputNode' outputNode' t) (rulesLoop rules' T out))"
proof (induction rules inputNode outputNode s and rules' inputNode' outputNode' t
    rule: hFilterByRules_hRulesLoop.induct)
  case (1 rules inputNode outputNode s)
  show ?case
  proof (intro allI impI, elim conjE)
    fix N T b a
    assume io: "inputNode = Some b" "outputNode = Some a"
      and rT: "reprA (\<lambda>x. x < N) s (Some b) T"
      and Na: "N \<le> a" and a: "a < length s" and z: "s ! a = zeroCell"
    from rT have b: "b < length s" "b < N" "cKind (s ! b) = Kind T" "cStyle (s ! b) = Style T"
      by (auto elim!: reprA_Some)
    from b(2) Na have ba: "b \<noteq> a" by simp
    have d: "deref s inputNode = Some (s ! b)" using b(1) io by (simp add: deref_def)
    show "rel_sum sameFailure (\<lambda>s' out'. outCell N a s' out')
        (hFilterByRules rules inputNode outputNode s) (filterByRules rules T zeroNode)"
    proof (cases "Kind T = MappingNode")
      case False
      with d b(3) show ?thesis by (simp add: sameFailure_def)
    next
      case True
      define s1 where "s1 = s[a := (s ! a)\<lparr>cKind := MappingNode\<rparr>]"
      define s2 where "s2 = s1[a := (s1 ! a)\<lparr>cStyle := cStyle (s1 ! b)\<rparr>]"
      have a1: "assign s outputNode (cKind_update (\<lambda>_. MappingNode)) = Some s1"
        using a io by (simp add: assign_def s1_def)
      have d1: "deref s1 inputNode = Some (s1 ! b)" using b(1) io by (simp add: deref_def s1_def)
      have a2: "assign s1 outputNode (cStyle_update (\<lambda>_. cStyle (s1 ! b))) = Some s2"
        using a io by (simp add: assign_def s1_def s2_def)
      have k: "\<not> cKind (s ! b) \<noteq> MappingNode" using True b(3) by simp
      have hf: "hFilterByRules rules inputNode outputNode s = hRulesLoop rules inputNode outputNode s2"
        using d k a1 d1 a2 by simp
      have tf: "filterByRules rules T zeroNode
                  = rulesLoop rules T (Node MappingNode (Style T) [] [] [] None [] [] [] [] 0 0)"
        using True by (simp add: zeroNode_def)
      have s2b: "s1 ! b = s ! b" using ba by (simp add: s1_def)
      have s2a: "s2 ! a = zeroCell\<lparr>cKind := MappingNode, cStyle := Style T\<rparr>"
        using a z b(4) s2b by (simp add: s2_def s1_def)
      have l2: "length s2 = length s" by (simp add: s2_def s1_def)
      have below: "\<And>x. x < length s \<Longrightarrow> x < N \<Longrightarrow> s2 ! x = s ! x"
        using Na by (simp add: s2_def s1_def)
      have r2: "reprA (\<lambda>x. x < N) s2 (Some b) T"
        using rT by (rule reprA_transfer) (simp_all add: l2 below)
      have oc: "outCell N a s2 (Node MappingNode (Style T) [] [] [] None [] [] [] [] 0 0)"
        using a Na by (simp add: outCell_def l2 s2a zeroCell_def)
      from 1 [OF d k a1 d1 a2] io r2 oc
      have "rel_sum sameFailure (\<lambda>s' out'. outCell N a s' out')
              (hRulesLoop rules inputNode outputNode s2)
              (rulesLoop rules T (Node MappingNode (Style T) [] [] [] None [] [] [] [] 0 0))"
        by blast
      then show ?thesis by (simp only: hf tf)
    qed
  qed
next
  case (2 inputNode outputNode s)
  show ?case by simp
next
  case (3 key incl rules inputNode outputNode s)
  show ?case
  proof (intro allI impI, elim conjE)
    fix N T b a out
    assume io: "inputNode = Some b" "outputNode = Some a"
      and rT: "reprA (\<lambda>x. x < N) s (Some b) T"
      and oc: "outCell N a s out"
    from rT have b: "b < length s" "b < N"
      and rc: "reprsA (\<lambda>x. x < N) s (cContent (s ! b)) (Content T)"
      by (auto elim!: reprA_Some)
    from oc have a: "a < length s" "N \<le> a" by (simp_all add: outCell_def)
    let ?R = "rel_sum sameFailure (\<lambda>s' out'. outCell N a s' out')"
    from hScan_scan [OF b(1) rc, of 0 key]
    have sc: "rel_sum (=) (rel_option (\<lambda>(k, v) (kn, vn).
                 reprA (\<lambda>x. x < N) s k kn \<and> reprA (\<lambda>x. x < N) s v vn))
               (hScan s inputNode 0 key) (scan (Content T) 0 key)"
      by (simp add: io)
    show "?R (hRulesLoop (IncludeConfigItem key incl # rules) inputNode outputNode s)
             (rulesLoop (IncludeConfigItem key incl # rules) T out)"
    proof (cases "hScan s inputNode 0 key")
      case (Inl e)
      with sc have "scan (Content T) 0 key = Inl e" by (auto simp: rel_sum.simps)
      with Inl show ?thesis by (simp add: sameFailure_def)
    next
      case (Inr m)
      show ?thesis
      proof (cases m)
        case None
        with Inr sc have ts: "scan (Content T) 0 key = Inr None" by (auto simp: rel_sum.simps)
        from 3(1) [OF Inr None] io rT oc
        have "?R (hRulesLoop rules inputNode outputNode s) (rulesLoop rules T out)" by blast
        with Inr None ts show ?thesis by simp
      next
        case (Some kv)
        obtain keyNode valueNode where kv: "(keyNode, valueNode) = kv" by (cases kv) auto
        from Inr Some kv sc obtain kn vn where
          ts: "scan (Content T) 0 key = Inr (Some (kn, vn))"
          and rk: "reprA (\<lambda>x. x < N) s keyNode kn" and rv: "reprA (\<lambda>x. x < N) s valueNode vn"
          by (auto simp: rel_sum.simps option_rel_Some1)
        define s1 where "s1 = s[a := (s ! a)\<lparr>cContent := cContent (s ! a) @ [keyNode]\<rparr>]"
        have a1: "assign s outputNode (\<lambda>c. c\<lparr>cContent := cContent c @ [keyNode]\<rparr>) = Some s1"
          using a(1) io by (simp add: assign_def s1_def)
        have l1: "length s1 = length s" by (simp add: s1_def)
        have below1: "\<And>x. x < length s \<Longrightarrow> x < N \<Longrightarrow> s1 ! x = s ! x"
          using a(2) by (simp add: s1_def)
        have oc1: "outCell N a s1 (appendContent kn out)"
          using oc reprA_below_wider [OF rk] a1 [unfolded io] by (rule outCell_append)
        have rT1: "reprA (\<lambda>x. x < N) s1 (Some b) T"
          using rT by (rule reprA_transfer) (simp_all add: l1 below1)
        have rv1: "reprA (\<lambda>x. x < N) s1 valueNode vn"
          using rv by (rule reprA_transfer) (simp_all add: l1 below1)
        show ?thesis
        proof (cases "0 < length incl")
          case False
          define s2 where "s2 = s1[a := (s1 ! a)\<lparr>cContent := cContent (s1 ! a) @ [valueNode]\<rparr>]"
          have a2: "assign s1 outputNode (\<lambda>c. c\<lparr>cContent := cContent c @ [valueNode]\<rparr>) = Some s2"
            using a(1) io by (simp add: assign_def s2_def l1)
          have l2: "length s2 = length s1" by (simp add: s2_def)
          have below2: "\<And>x. x < length s1 \<Longrightarrow> x < N \<Longrightarrow> s2 ! x = s1 ! x"
            using a(2) by (simp add: s2_def)
          have oc2: "outCell N a s2 (appendContent vn (appendContent kn out))"
            using oc1 reprA_below_wider [OF rv1] a2 [unfolded io] by (rule outCell_append)
          have rT2: "reprA (\<lambda>x. x < N) s2 (Some b) T"
            using rT1 by (rule reprA_transfer) (simp_all add: l2 below2)
          from 3(4) [OF Inr Some kv a1 False a2] io rT2 oc2
          have "?R (hRulesLoop rules inputNode outputNode s2)
                  (rulesLoop rules T (appendContent vn (appendContent kn out)))" by blast
          with Inr Some kv ts a1 a2 False show ?thesis by auto
        next
          case True
          define nested where "nested = Some (length s1)"
          define s2 where "s2 = s1 @ [zeroCell]"
          have n: "(nested, s2) = new s1" by (simp add: new_def nested_def s2_def)
          have rv2: "reprA (\<lambda>x. x < N) s2 valueNode vn"
            using rv1 by (rule reprA_transfer) (simp_all add: s2_def nth_append)
          from rv2 obtain vb where vb: "valueNode = Some vb" by (rule reprA_Some)
          have pre: "valueNode = Some vb \<and> nested = Some (length s1)
              \<and> reprA (\<lambda>x. x < N) s2 (Some vb) vn \<and> N \<le> length s1
              \<and> length s1 < length s2 \<and> s2 ! length s1 = zeroCell"
          proof -
            have z: "s2 ! length s1 = zeroCell" by (simp add: s2_def)
            have Nl: "N \<le> length s1" using a l1 by simp
            have l12: "length s1 < length s2" by (simp add: s2_def)
            from vb rv2 z Nl l12 show ?thesis by (simp add: nested_def)
          qed
          have nest: "rel_sum sameFailure (\<lambda>s' out'. outCell N (length s1) s' out')
                  (hFilterByRules incl valueNode nested s2) (filterByRules incl vn zeroNode)"
            by (rule 3(2) [OF Inr Some kv a1 True n, rule_format, of vb "length s1" N vn]) (rule pre)
          show ?thesis
          proof (cases "hFilterByRules incl valueNode nested s2")
            case (Inl failure)
            with nest have "filterByRules incl vn zeroNode = Inl (fst failure)"
              by (auto simp: rel_sum.simps sameFailure_def)
            with Inl Inr Some kv ts a1 True n [symmetric] show ?thesis
              by (auto simp: sameFailure_def simp del: hFilterByRules.simps filterByRules.simps)
          next
            case (Inr s3)
            note run3 = Inr
            with nest obtain nt where nt: "filterByRules incl vn zeroNode = Inr nt"
              and oc3: "outCell N (length s1) s3 nt"
              by (auto simp: rel_sum.simps)
            from frame_Inr [OF run3] have u3: "untouched nested s2 s3" .
            have l3: "length s2 \<le> length s3" using u3 by (rule untouched_length)
            have keep: "s3 ! x = s1 ! x" if "x < length s1" for x
              using untouched_nth [OF u3, of x] that by (simp add: nested_def s2_def nth_append)
            have oc1': "outCell N a s3 (appendContent kn out)"
              using oc1 by (rule outCell_transfer) (use l3 keep in \<open>simp_all add: s2_def\<close>)
            have rn: "reprA (\<lambda>x. x < N \<or> a < x) s3 nested nt"
              unfolding nested_def
              by (rule reprA_mono [OF outCell_repr [OF oc3]]) (use a l1 in auto)
            define s4 where "s4 = s3[a := (s3 ! a)\<lparr>cContent := cContent (s3 ! a) @ [nested]\<rparr>]"
            have a3: "a < length s3" using a(1) l1 l3 by (simp add: s2_def)
            have a4: "assign s3 outputNode (\<lambda>c. c\<lparr>cContent := cContent c @ [nested]\<rparr>) = Some s4"
              using a3 io by (simp add: assign_def s4_def)
            have oc4: "outCell N a s4 (appendContent nt (appendContent kn out))"
              using oc1' rn a4 [unfolded io] by (rule outCell_append)
            have rT3: "reprA (\<lambda>x. x < N) s3 (Some b) T"
              using rT1 by (rule reprA_transfer) (use l3 keep in \<open>simp_all add: s2_def\<close>)
            have rT4: "reprA (\<lambda>x. x < N) s4 (Some b) T"
              using rT3 by (rule reprA_transfer) (use a(2) in \<open>simp_all add: s4_def\<close>)
            from 3(3) [OF \<open>hScan s inputNode 0 key = Inr m\<close> Some kv a1 True n run3 a4] io rT4 oc4
            have "?R (hRulesLoop rules inputNode outputNode s4)
                    (rulesLoop rules T (appendContent nt (appendContent kn out)))" by blast
            with \<open>hScan s inputNode 0 key = Inr m\<close> Some kv ts a1 True n [symmetric] run3 nt a4
            show ?thesis
              by (auto simp del: hFilterByRules.simps filterByRules.simps)
          qed
        qed
      qed
    qed
  qed
qed

text \<open>
  \<open>project\<close> on a store whose input pointer leads to the tree \<open>T\<close> fails as \<open>project\<close> on \<open>T\<close>
  fails, or returns a pointer that leads to the tree \<open>project\<close> on \<open>T\<close> returns. The
  properties proved of the function on trees are properties of the trees the function on
  the store builds.
\<close>

theorem hProject_refines_project:
  assumes "repr s inputNode T"
  shows "rel_sum sameFailure (\<lambda>(outputNode, s') out. repr s' outputNode out)
           (hProject rules inputNode s) (project rules T)"
proof -
  let ?N = "length s" and ?s1 = "s @ [zeroCell]"
  from assms have "reprA (\<lambda>x. x < ?N) s inputNode T"
    unfolding repr_def using reprA_mono_mutual(1) [of "\<lambda>x. True" s "\<lambda>x. x < ?N"] by blast
  then have r1: "reprA (\<lambda>x. x < ?N) ?s1 inputNode T"
    by (rule reprA_transfer) (simp_all add: nth_append)
  then obtain b where b: "inputNode = Some b" by (rule reprA_Some)
  have pre: "inputNode = Some b \<and> Some ?N = Some ?N \<and> reprA (\<lambda>x. x < ?N) ?s1 (Some b) T
      \<and> ?N \<le> ?N \<and> ?N < length ?s1 \<and> ?s1 ! ?N = zeroCell"
    using b r1 by simp
  have sim: "rel_sum sameFailure (\<lambda>s' out'. outCell ?N ?N s' out')
               (hFilterByRules rules inputNode (Some ?N) ?s1) (filterByRules rules T zeroNode)"
    by (rule refine_mutual(1) [rule_format, of inputNode b "Some ?N" ?N ?N ?s1 T rules]) (rule pre)
  have fin: "repr s' (Some ?N) out'" if "outCell ?N ?N s' out'" for s' out'
    unfolding repr_def by (rule reprA_mono [OF outCell_repr [OF that]]) simp
  show ?thesis
  proof (cases "hFilterByRules rules inputNode (Some ?N) ?s1")
    case (Inl failure)
    with sim have "filterByRules rules T zeroNode = Inl (fst failure)"
      by (auto simp: rel_sum.simps sameFailure_def)
    with Inl show ?thesis
      by (simp add: hProject_def new_def project_def sameFailure_def
          del: hFilterByRules.simps filterByRules.simps)
  next
    case (Inr s')
    with sim obtain out' where o: "filterByRules rules T zeroNode = Inr out'" "outCell ?N ?N s' out'"
      by (auto simp: rel_sum.simps)
    with Inr fin [OF o(2)] show ?thesis
      by (simp add: hProject_def new_def project_def del: hFilterByRules.simps filterByRules.simps)
  qed
qed

text \<open>
  The example store holds the tree of \<open>{a: 1, b: {x: 2, y: 3}}\<close>, and the store that
  \<open>project\<close> leaves holds at the output pointer the tree \<open>project\<close> returns on that tree.
\<close>

lemma repr_example:
  "repr exampleStore (Some 0)
     (mapping [scalar ''!!str'' ''a'' 1 1, scalar ''!!int'' ''1'' 1 4, scalar ''!!str'' ''b'' 2 1,
        mapping [scalar ''!!str'' ''x'' 3 3, scalar ''!!int'' ''2'' 3 6,
                 scalar ''!!str'' ''y'' 4 3, scalar ''!!int'' ''3'' 4 6] 3 3] 1 1)"
  by code_simp

lemma refines_example:
  "repr (exampleStore @
         [zeroCell\<lparr>cKind := MappingNode, cContent := [Some 1, Some 2, Some 3, Some 10]\<rparr>,
          zeroCell\<lparr>cKind := MappingNode, cContent := [Some 7, Some 8]\<rparr>])
     (Some 9)
     (Node MappingNode 0 [] [] [] None
        [scalar ''!!str'' ''a'' 1 1, scalar ''!!int'' ''1'' 1 4, scalar ''!!str'' ''b'' 2 1,
         Node MappingNode 0 [] [] [] None
           [scalar ''!!str'' ''y'' 4 3, scalar ''!!int'' ''3'' 4 6] [] [] [] 0 0]
        [] [] [] 0 0)"
  by code_simp

section \<open>Order of the keys\<close>

text \<open>
  C1. When \<open>project\<close> returns a node, the texts of its keys are the keys of the rules, in the
  order the rules are declared, restricted to those that occur among the keys of the input
  mapping; the order of the keys in the input plays no part.
\<close>

theorem project_key_order:
  assumes "project rules inputNode = Inr outputNode"
  shows "keysOf outputNode = filter (\<lambda>k. k \<in> set (keysOf inputNode)) (map Key rules)"
proof -
  from assms obtain es where es: "entries rules inputNode = Inr es"
    and out: "Content outputNode = es"
    by (auto elim!: project_Inr)
  with entries_keys [OF es] show ?thesis by (simp add: keysOf_def)
qed

lemma run_ab:
  "project [leaf ''b'', leaf ''c'', leaf ''a''] abInput =
     Inr (Node MappingNode 0 [] [] [] None
       [scalar ''!!str'' ''b'' 2 1, scalar ''!!int'' ''2'' 2 4,
        scalar ''!!str'' ''a'' 1 1, scalar ''!!int'' ''1'' 1 4] [] [] [] 0 0)"
  by code_simp

theorem project_key_order_witness:
  "project [leaf ''b'', leaf ''c'', leaf ''a''] abInput =
     Inr (Node MappingNode 0 [] [] [] None
       [scalar ''!!str'' ''b'' 2 1, scalar ''!!int'' ''2'' 2 4,
        scalar ''!!str'' ''a'' 1 1, scalar ''!!int'' ''1'' 1 4] [] [] [] 0 0)
   \<and> keysOf abInput = [''a'', ''b'']
   \<and> keysOf (Node MappingNode 0 [] [] [] None
       [scalar ''!!str'' ''b'' 2 1, scalar ''!!int'' ''2'' 2 4,
        scalar ''!!str'' ''a'' 1 1, scalar ''!!int'' ''1'' 1 4] [] [] [] 0 0) = [''b'', ''a'']"
proof -
  have k: "keysOf abInput = [''a'', ''b'']" by code_simp
  from project_key_order [OF run_ab] k
  have "keysOf (Node MappingNode 0 [] [] [] None
       [scalar ''!!str'' ''b'' 2 1, scalar ''!!int'' ''2'' 2 4,
        scalar ''!!str'' ''a'' 1 1, scalar ''!!int'' ''1'' 1 4] [] [] [] 0 0) = [''b'', ''a'']"
    by (simp add: leaf_def)
  with k run_ab show ?thesis by simp
qed

section \<open>A node that is not a mapping\<close>

text \<open>
  C2, as the code has it. A call whose input node is not a mapping node ends in
  \<^verbatim>\<open>logrus.Fatalf("Input node is not a mapping node")\<close>: the message is fixed and names no
  position. The same holds for the call at the top when the node is the input of a nested
  call, at any depth (the value matched by a rule with nested rules, the rules before it
  having passed); whatever failure a nested call ends in is the failure of every call
  around it, and of \<open>trim\<close>. A failed call returns no node.
\<close>

theorem not_a_mapping_is_fatal:
  "(Kind node \<noteq> MappingNode \<longrightarrow>
      filterByRules rules' node outputNode' = Inl (Fatal ''Input node is not a mapping node''))
   \<and> (callAt rules inputNode path = Some (rules', node) \<and> Kind node \<noteq> MappingNode \<longrightarrow>
      filterByRules rules inputNode outputNode = Inl (Fatal ''Input node is not a mapping node''))
   \<and> (callAt rules inputNode path = Some (rules', node)
        \<and> filterByRules rules' node zeroNode = Inl e \<longrightarrow>
      filterByRules rules inputNode outputNode = Inl e)
   \<and> (unmarshal input = Inr root \<and> Content root = [inputNode]
        \<and> filterByRules rules inputNode zeroNode = Inl e \<longrightarrow>
      trim unmarshal encode input rules = Inl e)"
proof -
  have here: "filterByRules rules' node out = Inl (Fatal ''Input node is not a mapping node'')"
    if "Kind node \<noteq> MappingNode" for out
    using that by simp
  have above: "filterByRules rules inputNode outputNode = Inl e'"
    if "callAt rules inputNode path = Some (rules', node)"
      and "filterByRules rules' node zeroNode = Inl e'" for e'
    using that by (rule failure_reaches_caller)
  have tr: "trim unmarshal encode input rules = Inl e"
    if "unmarshal input = Inr root" "Content root = [inputNode]"
      "filterByRules rules inputNode zeroNode = Inl e"
    using that by (simp add: trim_def del: filterByRules.simps)
  from here above tr show ?thesis by (simp del: filterByRules.simps)
qed

text \<open>
  In the example document the key \<open>username\<close> holds a scalar. With rules that go on below
  it (\<open>database\<close>, \<open>credentials\<close>, \<open>username\<close>, each with nested rules) the call three levels
  down gets that scalar, and the calls around it and \<open>trim\<close> end in the fatal message.
\<close>

theorem not_a_mapping_is_fatal_witness:
  "Kind (scalar ''!!str'' ''user'' 7 15) \<noteq> MappingNode
   \<and> filterByRules [leaf ''x''] (scalar ''!!str'' ''user'' 7 15) zeroNode
       = Inl (Fatal ''Input node is not a mapping node'')
   \<and> callAt deepRules configInput [0, 0, 0] = Some ([leaf ''x''], scalar ''!!str'' ''user'' 7 15)
   \<and> filterByRules deepRules configInput zeroNode
       = Inl (Fatal ''Input node is not a mapping node'')
   \<and> exampleUnmarshal configDoc = Inr (document [configInput])
   \<and> Content (document [configInput]) = [configInput]
   \<and> trim exampleUnmarshal exampleEncode configDoc deepRules
       = Inl (Fatal ''Input node is not a mapping node'')"
proof -
  have h1: "Kind (scalar ''!!str'' ''user'' 7 15) \<noteq> MappingNode" by code_simp
  have h2: "callAt deepRules configInput [0, 0, 0] = Some ([leaf ''x''], scalar ''!!str'' ''user'' 7 15)"
    by code_simp
  have h3: "exampleUnmarshal configDoc = Inr (document [configInput])" by code_simp
  have h4: "Content (document [configInput]) = [configInput]" by (simp add: document_def)
  note t = not_a_mapping_is_fatal [where node = "scalar ''!!str'' ''user'' 7 15"
      and rules' = "[leaf ''x'']" and outputNode' = zeroNode and rules = deepRules
      and inputNode = configInput and path = "[0, 0, 0]" and outputNode = zeroNode
      and e = "Fatal ''Input node is not a mapping node''" and unmarshal = exampleUnmarshal
      and input = configDoc and root = "document [configInput]" and encode = exampleEncode]
  from t h1 have c1: "filterByRules [leaf ''x''] (scalar ''!!str'' ''user'' 7 15) zeroNode
       = Inl (Fatal ''Input node is not a mapping node'')" by blast
  from t h1 h2 have c2: "filterByRules deepRules configInput zeroNode
       = Inl (Fatal ''Input node is not a mapping node'')" by blast
  from t h3 h4 c2 have c3: "trim exampleUnmarshal exampleEncode configDoc deepRules
       = Inl (Fatal ''Input node is not a mapping node'')" by blast
  from h1 h2 h3 h4 c1 c2 c3 show ?thesis by blast
qed

text \<open>
  C2 as the specification states it has the failure identify the position of the offending
  node. The scalar \<open>localhost\<close> stands at line 1 in \<open>shapeInput\<close> and at line 2 in
  \<open>shapeInputLater\<close>; the two runs end in the same value, which carries the fixed message
  only.
\<close>

theorem not_a_mapping_position_counterexample:
  "project shapeRules shapeInput = Inl (Fatal ''Input node is not a mapping node'')
   \<and> project shapeRules shapeInputLater = Inl (Fatal ''Input node is not a mapping node'')
   \<and> scan (Content shapeInput) 0 ''database''
       = Inr (Some (scalar ''!!str'' ''database'' 1 1, scalar ''!!str'' ''localhost'' 1 11))
   \<and> scan (Content shapeInputLater) 0 ''database''
       = Inr (Some (scalar ''!!str'' ''database'' 2 1, scalar ''!!str'' ''localhost'' 2 11))
   \<and> Line (scalar ''!!str'' ''localhost'' 1 11) \<noteq> Line (scalar ''!!str'' ''localhost'' 2 11)"
  by code_simp

section \<open>Running trim on its own output\<close>

text \<open>
  C3, as the code has it. Two rules with the same key both select the first pair of the
  input with that key; in the output of one run the first pair with that key is the entry
  of the first of the two rules, so a second run gives the second rule a different value.
  With \<open>dupRules\<close> the second run drops the key \<open>y\<close>, although the output of the first run is
  parsed back to an equivalent tree.
\<close>

theorem trim_idempotent_counterexample:
  "trim exampleUnmarshal exampleEncode dupDoc dupRules = Inr dupOnce
   \<and> trim exampleUnmarshal exampleEncode dupOnce dupRules = Inr dupTwice
   \<and> dupOnce \<noteq> dupTwice
   \<and> project dupRules dupInput = Inr dupOutput
   \<and> project dupRules dupOutput \<noteq> Inr dupOutput
   \<and> exampleUnmarshal dupOnce = Inr (document [dupReread])
   \<and> sameText dupReread dupOutput
   \<and> \<not> distinctKeys dupRules"
  by code_simp

text \<open>
  C3, amended. Let no two sibling rules share a key, at every level of the forest. If a
  first run parses \<open>doc\<close>, projects its tree to \<open>outputNode\<close> and encodes that as \<open>out\<close>, and
  the library parses \<open>out\<close> to a single tree equivalent to \<open>outputNode\<close> (for an equivalence
  \<open>eqv\<close> of the kind \<open>libEquiv\<close> describes, under which equivalent trees are encoded alike),
  then a second run on \<open>out\<close> returns \<open>out\<close> again.
\<close>

theorem trim_idempotent:
  assumes "libEquiv eqv"
    and "\<And>n m. eqv n m \<Longrightarrow> encode n = encode m"
    and "distinctKeys rules"
    and "unmarshal doc = Inr root" and "Content root = [inputNode]"
    and "project rules inputNode = Inr outputNode" and "encode outputNode = Inr out"
    and "unmarshal out = Inr root'" and "Content root' = [inputNode']"
    and "eqv inputNode' outputNode"
  shows "trim unmarshal encode doc rules = Inr out
       \<and> trim unmarshal encode (projr (trim unmarshal encode doc rules)) rules
           = trim unmarshal encode doc rules"
proof -
  have first: "trim unmarshal encode doc rules = Inr out"
    using assms(4-7) by (simp add: trim_def project_def del: filterByRules.simps)
  from filterByRules_idem [OF assms(3) assms(6) [unfolded project_def]]
  have idem: "filterByRules rules outputNode zeroNode = Inr outputNode" .
  from filterByRules_rel [OF assms(1) assms(10), of rules] idem
  obtain again where a: "filterByRules rules inputNode' zeroNode = Inr again" and e: "eqv again outputNode"
    by (auto simp: rel_sum.simps)
  from assms(2) [OF e] assms(7) have "encode again = Inr out" by simp
  with a assms(8,9) have "trim unmarshal encode out rules = Inr out"
    by (simp add: trim_def del: filterByRules.simps)
  with first show ?thesis by simp
qed

text \<open>
  The test "nested filtering": the output parsed again differs from the output tree in
  tags and positions only, and the second run returns the same text.
\<close>

theorem trim_idempotent_witness:
  "libEquiv sameText \<and> distinctKeys nestedRules
   \<and> exampleUnmarshal configDoc = Inr (document [configInput])
   \<and> Content (document [configInput]) = [configInput]
   \<and> project nestedRules configInput = Inr nestedOutput
   \<and> exampleEncode nestedOutput = Inr nestedDoc
   \<and> exampleUnmarshal nestedDoc = Inr (document [nestedReread])
   \<and> Content (document [nestedReread]) = [nestedReread]
   \<and> sameText nestedReread nestedOutput
   \<and> nestedReread \<noteq> nestedOutput
   \<and> trim exampleUnmarshal exampleEncode configDoc nestedRules = Inr nestedDoc
   \<and> trim exampleUnmarshal exampleEncode
        (projr (trim exampleUnmarshal exampleEncode configDoc nestedRules)) nestedRules
       = trim exampleUnmarshal exampleEncode configDoc nestedRules"
proof -
  have h3: "distinctKeys nestedRules" by code_simp
  have h4: "exampleUnmarshal configDoc = Inr (document [configInput])" by code_simp
  have h5: "Content (document [configInput]) = [configInput]" by (simp add: document_def)
  have h6: "project nestedRules configInput = Inr nestedOutput" by code_simp
  have h7: "exampleEncode nestedOutput = Inr nestedDoc" by code_simp
  have h8: "exampleUnmarshal nestedDoc = Inr (document [nestedReread])" by code_simp
  have h9: "Content (document [nestedReread]) = [nestedReread]" by (simp add: document_def)
  have h10: "sameText nestedReread nestedOutput" by code_simp
  have ne: "nestedReread \<noteq> nestedOutput" by code_simp
  from trim_idempotent [of sameText exampleEncode nestedRules exampleUnmarshal configDoc,
      OF libEquiv_sameText exampleEncode_sameText h3 h4 h5 h6 h7 h8 h9 h10]
    libEquiv_sameText h3 h4 h5 h6 h7 h8 h9 h10 ne
  show ?thesis by blast
qed

section \<open>A rule with no nested rules\<close>

text \<open>
  C4. Let \<open>r\<close> be a rule with no nested rules whose scan of the input ends at the pair
  \<open>(keyNode, valueNode)\<close>. In the node \<open>project\<close> returns, the content holds that key node
  and that value node themselves, the whole subtree, at the place of the rule's entry
  (two nodes for every rule before \<open>r\<close> whose key the input has); so whatever encodes the
  value in the output encodes it as it encodes the value of the input.
\<close>

theorem leaf_rule_copies_verbatim:
  assumes "project (before @ r # after) inputNode = Inr outputNode"
    and "Include r = []"
    and "scan (Content inputNode) 0 (Key r) = Inr (Some (keyNode, valueNode))"
    and "i = 2 * length (filter (\<lambda>r'. Key r' \<in> set (keysOf inputNode)) before)"
  shows "i + 1 < length (Content outputNode)
       \<and> Content outputNode ! i = keyNode
       \<and> Content outputNode ! (i + 1) = valueNode
       \<and> encode (Content outputNode ! (i + 1)) = encode valueNode"
proof -
  from assms(1) obtain es where es: "entries (before @ r # after) inputNode = Inr es"
    and out: "Content outputNode = es"
    by (auto elim!: project_Inr)
  from es obtain xs ys zs where p: "entries before inputNode = Inr xs" "entry r inputNode = Inr ys"
    "entries after inputNode = Inr zs" "es = xs @ ys @ zs"
    by (rule entries_split)
  from p(2) assms(2,3) have ys: "ys = [keyNode, valueNode]"
    by (simp add: entry_def scan_drop)
  from entries_length [OF p(1)] assms(4) have i: "i = length xs" by simp
  show ?thesis
    by (simp add: out p(4) ys i nth_append)
qed

lemma run_leaf:
  "project ([leaf ''nonexistent'', leaf ''cache''] @ leaf ''database'' # []) configInput
     = Inr (Node MappingNode 0 [] [] [] None
         [Content configInput ! 0, Content configInput ! 1,
          Content configInput ! 2, Content configInput ! 3] [] [] [] 0 0)"
  by code_simp

theorem leaf_rule_copies_verbatim_witness:
  "project ([leaf ''nonexistent'', leaf ''cache''] @ leaf ''database'' # []) configInput
     = Inr (Node MappingNode 0 [] [] [] None
         [Content configInput ! 0, Content configInput ! 1,
          Content configInput ! 2, Content configInput ! 3] [] [] [] 0 0)
   \<and> Include (leaf ''database'') = []
   \<and> scan (Content configInput) 0 (Key (leaf ''database''))
       = Inr (Some (Content configInput ! 2, Content configInput ! 3))
   \<and> (2::nat) = 2 * length (filter (\<lambda>r'. Key r' \<in> set (keysOf configInput))
                   [leaf ''nonexistent'', leaf ''cache''])
   \<and> Content (Node MappingNode 0 [] [] [] None
         [Content configInput ! 0, Content configInput ! 1,
          Content configInput ! 2, Content configInput ! 3] [] [] [] 0 0) ! (2 + 1)
       = Content configInput ! 3
   \<and> emit 0 [Content configInput ! 2, Content (Node MappingNode 0 [] [] [] None
         [Content configInput ! 0, Content configInput ! 1,
          Content configInput ! 2, Content configInput ! 3] [] [] [] 0 0) ! (2 + 1)]
       = emit 0 [Content configInput ! 2, Content configInput ! 3]"
proof -
  have h2: "Include (leaf ''database'') = []" by (simp add: leaf_def)
  have h3: "scan (Content configInput) 0 (Key (leaf ''database''))
       = Inr (Some (Content configInput ! 2, Content configInput ! 3))"
    by code_simp
  have h4: "(2::nat) = 2 * length (filter (\<lambda>r'. Key r' \<in> set (keysOf configInput))
                   [leaf ''nonexistent'', leaf ''cache''])"
    by code_simp
  from leaf_rule_copies_verbatim [OF run_leaf h2 h3 h4,
      of "\<lambda>v. emit 0 [Content configInput ! 2, v]"] run_leaf h2 h3 h4
  show ?thesis by blast
qed

section \<open>The shape of the document\<close>

text \<open>
  What \<open>trim\<close> does once the input is parsed: a root with no content makes it return the
  error "no content in the input YAML"; a root with more than one child ends in the fatal
  message "Multiple documents ..."; a root with exactly one child has that child projected
  and the result encoded.
\<close>

lemma trim_on_parsed_root:
  assumes "unmarshal input = Inr root"
  shows "(Content root = [] \<longrightarrow>
            trim unmarshal encode input rules = Inl (Failed ''no content in the input YAML''))
       \<and> (1 < length (Content root) \<longrightarrow>
            trim unmarshal encode input rules
              = Inl (Fatal ''Multiple documents in the input YAML. This is not supported yet.''))
       \<and> (Content root = [doc] \<longrightarrow>
            trim unmarshal encode input rules
              = (case project rules doc of
                   Inl e \<Rightarrow> Inl e
                 | Inr outputNode \<Rightarrow>
                     (case encode outputNode of
                        Inl err \<Rightarrow> Inl (Failed (''failed to marshal output YAML: '' @ err))
                      | Inr output \<Rightarrow> Inr output)))"
  using assms by (simp add: trim_def project_def del: filterByRules.simps)

text \<open>
  The fatal message for several documents has one origin, the test
  \<^verbatim>\<open>len(root.Content) > 1\<close> of lines 205 to 207: \<open>filterByRules\<close> fails with its own message
  or with the panic of the scan, and with nothing else. So \<open>trim\<close> refuses an input as a
  text of several documents only when the parser has returned a root with more than one
  child.
\<close>

lemma filterByRules_failures:
  "filterByRules rules inputNode outputNode = Inl e \<Longrightarrow>
     e = Fatal ''Input node is not a mapping node'' \<or> e = IndexOutOfRange"
proof (induction rules arbitrary: inputNode outputNode e
    rule: measure_induct_rule [where f = "size_list size"])
  case (less rules)
  show ?case
  proof (cases "Kind inputNode = MappingNode")
    case False
    with less.prems show ?thesis by simp
  next
    case True
    with less.prems have "entries rules inputNode = Inl e"
      by (simp add: rulesLoop_entries split: sum.splits)
    then obtain r where r: "r \<in> set rules" "entry r inputNode = Inl e"
      using entries_Inl by blast
    show ?thesis
    proof (cases "firstPair (Content inputNode) (Key r)")
      case (Inl e')
      with r(2) firstPair_Inl [OF Inl] show ?thesis by (simp add: entry_def)
    next
      case (Inr m)
      with r(2) obtain k v where "Include r \<noteq> []"
        and n: "filterByRules (Include r) v zeroNode = Inl e"
        by (cases m) (auto simp: entry_def simp del: filterByRules.simps
            split: if_splits sum.splits)
      from less.IH [OF size_Include [OF r(1)] n] show ?thesis .
    qed
  qed
qed

lemma trim_refuses_only_many_children:
  assumes "trim unmarshal encode input rules
             = Inl (Fatal ''Multiple documents in the input YAML. This is not supported yet.'')"
  shows "\<exists>root. unmarshal input = Inr root \<and> 1 < length (Content root)"
proof (cases "unmarshal input")
  case (Inl err)
  with assms show ?thesis by (simp add: trim_def)
next
  case (Inr root)
  show ?thesis
  proof (cases "1 < length (Content root)")
    case True
    with Inr show ?thesis by simp
  next
    case False
    show ?thesis
    proof (cases "Content root = []")
      case True
      with assms Inr show ?thesis by (simp add: trim_def)
    next
      case ne: False
      show ?thesis
      proof (cases "filterByRules rules (Content root ! 0) zeroNode")
        case (Inl e)
        from filterByRules_failures [OF Inl] assms Inr False ne Inl show ?thesis
          by (auto simp: trim_def simp del: filterByRules.simps)
      next
        case r: (Inr outputNode)
        with assms Inr False ne show ?thesis
          by (auto simp: trim_def simp del: filterByRules.simps split: sum.splits)
      qed
    qed
  qed
qed

text \<open>
  C5. The specification has \<open>trim\<close> fail when the input holds more than one document, and
  the code means to: lines 204 to 207 test \<^verbatim>\<open>len(root.Content) > 1\<close> under the comment
  "handle multiple documents later" and end in the fatal message. The root that
  \<^verbatim>\<open>yaml.Unmarshal\<close> fills has the first document as its only child, so the test never
  holds. On the text \<open>manyDocs\<close> of two documents, with the rule \<open>a\<close>, \<open>trim\<close> does not fail: it
  returns the projection of the first document, and the second document is dropped
  without a word.
\<close>

theorem trim_multi_document_not_refused:
  "exampleUnmarshal manyDocs = Inr (document [firstOfMany])
   \<and> length (Content (document [firstOfMany])) = 1
   \<and> trim exampleUnmarshal exampleEncode manyDocs [leaf ''a''] = Inr (''a: 1'' @ nl)
   \<and> trim exampleUnmarshal exampleEncode manyDocs [leaf ''a'']
       \<noteq> Inl (Fatal ''Multiple documents in the input YAML. This is not supported yet.'')"
  by code_simp

section \<open>No rule matches\<close>

text \<open>
  C6. Let the input be a mapping node (its content a sequence of pairs) none of whose keys
  is the key of a rule. Then \<open>project\<close> returns, without failure, the mapping node with
  empty content that carries the style of the input and the zero value in every other
  field; and \<open>trim\<close> returns what the encoder writes for that node, which for the library
  is \<open>{}\<close>.
\<close>

theorem no_match_empty_mapping:
  assumes "Kind inputNode = MappingNode" and "even (length (Content inputNode))"
    and "\<forall>r \<in> set rules. Key r \<notin> set (keysOf inputNode)"
  shows "project rules inputNode
           = Inr (Node MappingNode (Style inputNode) [] [] [] None [] [] [] [] 0 0)
       \<and> (unmarshal doc = Inr root \<and> Content root = [inputNode]
            \<and> encode (Node MappingNode (Style inputNode) [] [] [] None [] [] [] [] 0 0) = Inr b
          \<longrightarrow> trim unmarshal encode doc rules = Inr b)"
proof -
  have p: "filterByRules rules inputNode zeroNode
             = Inr (Node MappingNode (Style inputNode) [] [] [] None [] [] [] [] 0 0)"
    using assms entries_all_absent [of inputNode rules]
    by (simp add: filterByRules_entries zeroNode_def del: filterByRules.simps)
  then show ?thesis
    by (simp add: project_def trim_def del: filterByRules.simps)
qed

text \<open>
  The test "no matching keys": the rule \<open>nonexistent\<close> on the example document; and the same
  rule on a flow mapping, whose flow style the output node carries.
\<close>

theorem no_match_empty_mapping_witness:
  "Kind configInput = MappingNode \<and> even (length (Content configInput))
   \<and> Key (leaf ''nonexistent'') \<notin> set (keysOf configInput)
   \<and> project [leaf ''nonexistent''] configInput
       = Inr (Node MappingNode (Style configInput) [] [] [] None [] [] [] [] 0 0)
   \<and> exampleUnmarshal configDoc = Inr (document [configInput])
   \<and> Content (document [configInput]) = [configInput]
   \<and> exampleEncode (Node MappingNode (Style configInput) [] [] [] None [] [] [] [] 0 0)
       = Inr (''{}'' @ nl)
   \<and> trim exampleUnmarshal exampleEncode configDoc [leaf ''nonexistent''] = Inr (''{}'' @ nl)
   \<and> Kind flowInput = MappingNode \<and> even (length (Content flowInput))
   \<and> Key (leaf ''nonexistent'') \<notin> set (keysOf flowInput)
   \<and> project [leaf ''nonexistent''] flowInput
       = Inr (Node MappingNode FlowStyle [] [] [] None [] [] [] [] 0 0)"
proof -
  have h1: "Kind configInput = MappingNode" by code_simp
  have h2: "even (length (Content configInput))" by code_simp
  have h3: "Key (leaf ''nonexistent'') \<notin> set (keysOf configInput)" by code_simp
  then have h3': "\<forall>r \<in> set [leaf ''nonexistent'']. Key r \<notin> set (keysOf configInput)" by simp
  have h4: "exampleUnmarshal configDoc = Inr (document [configInput])" by code_simp
  have h5: "Content (document [configInput]) = [configInput]" by (simp add: document_def)
  have h6: "exampleEncode (Node MappingNode (Style configInput) [] [] [] None [] [] [] [] 0 0)
       = Inr (''{}'' @ nl)"
    by code_simp
  have f1: "Kind flowInput = MappingNode" by code_simp
  have f2: "even (length (Content flowInput))" by code_simp
  have f3: "Key (leaf ''nonexistent'') \<notin> set (keysOf flowInput)" by code_simp
  then have f3': "\<forall>r \<in> set [leaf ''nonexistent'']. Key r \<notin> set (keysOf flowInput)" by simp
  have fs: "Style flowInput = FlowStyle" by (simp add: flowInput_def)
  from no_match_empty_mapping [where unmarshal = exampleUnmarshal and doc = configDoc
      and encode = exampleEncode and root = "document [configInput]" and b = "''{}'' @ nl",
      OF h1 h2 h3']
    no_match_empty_mapping [where unmarshal = exampleUnmarshal and doc = configDoc
      and encode = exampleEncode and root = "document [configInput]" and b = "''{}'' @ nl",
      OF f1 f2 f3', unfolded fs]
    h1 h2 h3 h4 h5 h6 f1 f2 f3
  show ?thesis by blast
qed

section \<open>A rule whose key the input does not have\<close>

text \<open>
  C7. Let the content of the input mapping be a sequence of pairs and the key of the rule
  \<open>r\<close> be none of its keys. Then the pass of the loop for \<open>r\<close> leaves the output node as it
  is and the loop goes on with the rules after \<open>r\<close>; wherever \<open>r\<close> stands among the rules,
  the call ends as it does without \<open>r\<close>, with the same node or the same failure.
\<close>

theorem absent_rule_skipped:
  assumes "even (length (Content inputNode))" and "Key r \<notin> set (keysOf inputNode)"
  shows "rulesLoop (r # rules) inputNode outputNode = rulesLoop rules inputNode outputNode
       \<and> filterByRules (before @ r # after) inputNode outputNode
           = filterByRules (before @ after) inputNode outputNode"
proof -
  have e: "entry r inputNode = Inr []" using assms by (rule entry_absent)
  from entries_skip [OF e, of "[]" rules] entries_skip [OF e, of before after]
  show ?thesis by (simp add: rulesLoop_entries)
qed

theorem absent_rule_skipped_witness:
  "even (length (Content configInput))
   \<and> Key (leaf ''nonexistent'') \<notin> set (keysOf configInput)
   \<and> rulesLoop (leaf ''nonexistent'' # [leaf ''cache'']) configInput zeroNode
       = rulesLoop [leaf ''cache''] configInput zeroNode
   \<and> filterByRules ([leaf ''database''] @ leaf ''nonexistent'' # [leaf ''cache'']) configInput zeroNode
       = filterByRules ([leaf ''database''] @ [leaf ''cache'']) configInput zeroNode
   \<and> filterByRules ([leaf ''database''] @ [leaf ''cache'']) configInput zeroNode
       = Inr (Node MappingNode 0 [] [] [] None
           [Content configInput ! 2, Content configInput ! 3,
            Content configInput ! 0, Content configInput ! 1] [] [] [] 0 0)"
proof -
  have h1: "even (length (Content configInput))" by code_simp
  have h2: "Key (leaf ''nonexistent'') \<notin> set (keysOf configInput)" by code_simp
  have r: "filterByRules ([leaf ''database''] @ [leaf ''cache'']) configInput zeroNode
       = Inr (Node MappingNode 0 [] [] [] None
           [Content configInput ! 2, Content configInput ! 3,
            Content configInput ! 0, Content configInput ! 1] [] [] [] 0 0)"
    by code_simp
  from absent_rule_skipped [OF h1 h2, of "[leaf ''cache'']" zeroNode "[leaf ''database'']"
      "[leaf ''cache'']"] h1 h2 r
  show ?thesis by blast
qed

section \<open>The input tree is not written\<close>

text \<open>
  C8. However a call of \<open>project\<close> on a store \<open>s\<close> ends, the store it leaves starts with \<open>s\<close>:
  every node that existed before the call, so every node of the input tree, has all its
  fields unchanged. When the call returns, the output node is a new cell, a mapping node
  with the style of the input node and the zero value in its other fields, whose content
  holds pointers from the content of the input node (shared with the input) and pointers
  to nodes that are new as well.
\<close>

theorem project_leaves_input_unchanged:
  "take (length s) (storeAfterProject (hProject rules inputNode s)) = s
   \<and> (hProject rules inputNode s = Inr (outputNode, s') \<longrightarrow>
        outputNode = Some (length s) \<and> length s < length s'
        \<and> (\<exists>b ps. inputNode = Some b \<and> b < length s
              \<and> s' ! length s
                  = zeroCell\<lparr>cKind := MappingNode, cStyle := cStyle (s ! b), cContent := ps\<rparr>
              \<and> (\<forall>p \<in> set ps. p \<in> set (cContent (s ! b)) \<or> (\<exists>n > length s. p = Some n))))"
proof -
  let ?o = "Some (length s)" and ?s1 = "s @ [zeroCell]"
  let ?r = "hFilterByRules rules inputNode ?o ?s1"
  have sa: "storeAfterProject (hProject rules inputNode s) = storeAfter ?r"
    by (cases ?r)
      (auto simp: hProject_def new_def storeAfterProject_def storeAfter_def
        simp del: hFilterByRules.simps)
  from frame_mutual(1) [of ?o ?s1 rules inputNode]
  have u: "untouched ?o ?s1 (storeAfter ?r)" .
  have tk: "take (length s) (storeAfter ?r) = s"
  proof (rule nth_equalityI)
    show "length (take (length s) (storeAfter ?r)) = length s"
      using untouched_length [OF u] by simp
  next
    fix a assume "a < length (take (length s) (storeAfter ?r))"
    then have a: "a < length s" by simp
    with untouched_nth [OF u, of a] show "take (length s) (storeAfter ?r) ! a = s ! a"
      by (simp add: nth_append)
  qed
  have ret: "outputNode = Some (length s) \<and> length s < length s'
        \<and> (\<exists>b ps. inputNode = Some b \<and> b < length s
              \<and> s' ! length s
                  = zeroCell\<lparr>cKind := MappingNode, cStyle := cStyle (s ! b), cContent := ps\<rparr>
              \<and> (\<forall>p \<in> set ps. p \<in> set (cContent (s ! b)) \<or> (\<exists>n > length s. p = Some n)))"
    if run0: "hProject rules inputNode s = Inr (outputNode, s')"
  proof -
    from run0 have out: "outputNode = ?o" and run: "?r = Inr s'"
      by (auto simp: hProject_def new_def simp del: hFilterByRules.simps split: sum.splits)
    from u run have len: "length s < length s'"
      using untouched_length [OF u] by (simp add: storeAfter_def)
    from run obtain b a s2 where r: "inputNode = Some b" "b < length ?s1"
      "cKind (?s1 ! b) = MappingNode" "?o = Some a" "a < length ?s1"
      "s2 = ?s1[a := (?s1 ! a)\<lparr>cKind := MappingNode,
                 cStyle := cStyle (?s1[a := (?s1 ! a)\<lparr>cKind := MappingNode\<rparr>] ! b)\<rparr>]"
      "hRulesLoop rules inputNode ?o s2 = Inr s'"
      by (rule hFilterByRules_Inr)
    have a: "a = length s" using r(4) by simp
    have "b \<noteq> length s"
    proof
      assume "b = length s"
      with r(3) have "cKind zeroCell = MappingNode" by simp
      then show False by (simp add: zeroCell_def MappingNode_def)
    qed
    with r(2) have b: "b < length s" by simp
    have s2a: "s2 ! length s = zeroCell\<lparr>cKind := MappingNode, cStyle := cStyle (s ! b)\<rparr>"
      using b by (simp add: r(6) a nth_append)
    have s2b: "s2 ! b = s ! b" using b by (simp add: r(6) a nth_append)
    have l2: "length s2 = Suc (length s)" by (simp add: r(6))
    from hRulesLoop_output [of "length s" s2 b rules s'] b l2 r(7) [unfolded r(1)]
    obtain ps where ps: "s' ! length s = (s2 ! length s)\<lparr>cContent := cContent (s2 ! length s) @ ps\<rparr>"
      "\<forall>p\<in>set ps. p \<in> set (cContent (s2 ! b)) \<or> (\<exists>n\<ge>length s2. p = Some n)"
      by auto
    have shape: "s' ! length s
        = zeroCell\<lparr>cKind := MappingNode, cStyle := cStyle (s ! b), cContent := ps\<rparr>"
      using ps(1) by (simp add: s2a zeroCell_def)
    have fresh: "\<forall>p \<in> set ps. p \<in> set (cContent (s ! b)) \<or> (\<exists>n > length s. p = Some n)"
      using ps(2) by (auto simp: s2b l2 Suc_le_eq)
    from out len r(1) b shape fresh show ?thesis by blast
  qed
  from tk ret show ?thesis by (simp only: sa) blast
qed

text \<open>
  On the example store, with the rules \<open>a\<close> and \<open>b: [y]\<close>: the output is cell 9, its content
  shares the cells 1, 2 and 3 with the input, and the nested output is cell 10. With the
  rules \<open>a\<close> and \<open>b: [x: [z]]\<close> the call fails at the scalar under \<open>x\<close>, after it has written to
  three new cells; the nine cells of the input are as they were.
\<close>

lemma run_store:
  "hProject [IncludeConfigItem ''a'' [], IncludeConfigItem ''b'' [IncludeConfigItem ''y'' []]]
      (Some 0) exampleStore
     = Inr (Some 9, exampleStore @
         [zeroCell\<lparr>cKind := MappingNode, cContent := [Some 1, Some 2, Some 3, Some 10]\<rparr>,
          zeroCell\<lparr>cKind := MappingNode, cContent := [Some 7, Some 8]\<rparr>])"
  by code_simp

lemma run_store_failure:
  "hProject [IncludeConfigItem ''a'' [],
             IncludeConfigItem ''b'' [IncludeConfigItem ''x'' [IncludeConfigItem ''z'' []]]]
      (Some 0) exampleStore
     = Inl (Fatal ''Input node is not a mapping node'', exampleStore @
         [zeroCell\<lparr>cKind := MappingNode, cContent := [Some 1, Some 2, Some 3]\<rparr>,
          zeroCell\<lparr>cKind := MappingNode, cContent := [Some 5]\<rparr>,
          zeroCell])"
  by code_simp

theorem project_leaves_input_unchanged_witness:
  "hProject [IncludeConfigItem ''a'' [], IncludeConfigItem ''b'' [IncludeConfigItem ''y'' []]]
      (Some 0) exampleStore
     = Inr (Some 9, exampleStore @
         [zeroCell\<lparr>cKind := MappingNode, cContent := [Some 1, Some 2, Some 3, Some 10]\<rparr>,
          zeroCell\<lparr>cKind := MappingNode, cContent := [Some 7, Some 8]\<rparr>])
   \<and> take (length exampleStore) (exampleStore @
         [zeroCell\<lparr>cKind := MappingNode, cContent := [Some 1, Some 2, Some 3, Some 10]\<rparr>,
          zeroCell\<lparr>cKind := MappingNode, cContent := [Some 7, Some 8]\<rparr>]) = exampleStore
   \<and> Some 9 = Some (length exampleStore)
   \<and> take (length exampleStore) (exampleStore @
         [zeroCell\<lparr>cKind := MappingNode, cContent := [Some 1, Some 2, Some 3]\<rparr>,
          zeroCell\<lparr>cKind := MappingNode, cContent := [Some 5]\<rparr>,
          zeroCell]) = exampleStore"
proof -
  note a = project_leaves_input_unchanged [of exampleStore
      "[IncludeConfigItem ''a'' [], IncludeConfigItem ''b'' [IncludeConfigItem ''y'' []]]"
      "Some 0" "Some 9" "exampleStore @
         [zeroCell\<lparr>cKind := MappingNode, cContent := [Some 1, Some 2, Some 3, Some 10]\<rparr>,
          zeroCell\<lparr>cKind := MappingNode, cContent := [Some 7, Some 8]\<rparr>]"]
  note b = project_leaves_input_unchanged [of exampleStore
      "[IncludeConfigItem ''a'' [],
        IncludeConfigItem ''b'' [IncludeConfigItem ''x'' [IncludeConfigItem ''z'' []]]]"
      "Some 0", THEN conjunct1]
  from a b run_store run_store_failure show ?thesis
    by (simp add: storeAfterProject_def)
qed

section \<open>Rules with the same key\<close>

text \<open>
  C9. Let two rules of the forest have the key \<open>k\<close>, a key of the input, and let \<open>project\<close>
  return a node. Then that node has as many keys with the text \<open>k\<close> as there are rules with
  the key \<open>k\<close>, so at least two; and every key node of the output is the key node at which
  a scan of the input from its start, for that text, ends.
\<close>

theorem duplicate_rule_keys_repeat_entries:
  assumes "project rules inputNode = Inr outputNode"
    and "k \<in> set (keysOf inputNode)"
    and "rules = as @ r1 # bs @ r2 # cs" and "Key r1 = k" and "Key r2 = k"
  shows "length (filter (\<lambda>kn. Value kn = k) (keyNodes (Content outputNode)))
           = length (filter (\<lambda>r. Key r = k) rules)
       \<and> 2 \<le> length (filter (\<lambda>kn. Value kn = k) (keyNodes (Content outputNode)))
       \<and> (\<forall>kn \<in> set (keyNodes (Content outputNode)).
             \<exists>v. scan (Content inputNode) 0 (Value kn) = Inr (Some (kn, v)))"
proof -
  from assms(1) obtain es where es: "entries rules inputNode = Inr es"
    and out: "Content outputNode = es"
    by (auto elim!: project_Inr)
  from entries_keys [OF es]
  have ks: "map Value (keyNodes es) = filter (\<lambda>k. k \<in> set (keysOf inputNode)) (map Key rules)"
    by simp
  have "length (filter (\<lambda>kn. Value kn = k) (keyNodes es))
          = length (filter (\<lambda>x. x = k) (map Value (keyNodes es)))"
    by (simp add: filter_map o_def)
  also have "\<dots> = length (filter (\<lambda>x. x = k) (map Key rules))"
    unfolding ks using assms(2) by (simp add: conj_commute cong: conj_cong)
  also have "\<dots> = length (filter (\<lambda>r. Key r = k) rules)"
    by (simp add: filter_map o_def)
  finally have count: "length (filter (\<lambda>kn. Value kn = k) (keyNodes es))
          = length (filter (\<lambda>r. Key r = k) rules)" .
  have "2 \<le> length (filter (\<lambda>r. Key r = k) rules)"
    using assms(3-5) by simp
  with count entries_keyNodes_first [OF es] show ?thesis by (simp add: out)
qed

lemma run_dup: "project dupRules dupInput = Inr dupOutput"
  by code_simp

theorem duplicate_rule_keys_repeat_entries_witness:
  "project dupRules dupInput = Inr dupOutput
   \<and> ''a'' \<in> set (keysOf dupInput)
   \<and> dupRules = [] @ IncludeConfigItem ''a'' [leaf ''x''] # [] @ leaf ''a'' # []
   \<and> Key (IncludeConfigItem ''a'' [leaf ''x'']) = ''a'' \<and> Key (leaf ''a'') = ''a''
   \<and> length (filter (\<lambda>kn. Value kn = ''a'') (keyNodes (Content dupOutput)))
       = length (filter (\<lambda>r. Key r = ''a'') dupRules)
   \<and> 2 \<le> length (filter (\<lambda>kn. Value kn = ''a'') (keyNodes (Content dupOutput)))
   \<and> keysOf dupOutput = [''a'', ''a'']"
proof -
  have h2: "''a'' \<in> set (keysOf dupInput)" by code_simp
  have h3: "dupRules = [] @ IncludeConfigItem ''a'' [leaf ''x''] # [] @ leaf ''a'' # []"
    by (simp add: dupRules_def)
  have h4: "Key (IncludeConfigItem ''a'' [leaf ''x'']) = ''a''" by simp
  have h5: "Key (leaf ''a'') = ''a''" by (simp add: leaf_def)
  have k: "keysOf dupOutput = [''a'', ''a'']" by code_simp
  from duplicate_rule_keys_repeat_entries [OF run_dup h2 h3 h4 h5] run_dup h2 h3 h4 h5 k
  show ?thesis by blast
qed

section \<open>Reads within the bounds of the content\<close>

text \<open>
  C10. The functions of the model are total (each is defined by a terminating
  recursion), and a read past the end of a content slice is the result \<open>IndexOutOfRange\<close>.
  On a content of even length the scan never ends in it. A call whose input has a content
  of even length fails only with the failure of a nested call on a matched value. Hence
  on a tree in which the content of every mapping node has even length no call ends in
  \<open>IndexOutOfRange\<close>.
\<close>

theorem even_content_in_bounds:
  "(even (length content) \<longrightarrow> scan content 0 key \<noteq> Inl IndexOutOfRange)
   \<and> (even (length (Content inputNode)) \<and> rulesLoop rules inputNode outputNode = Inl e \<longrightarrow>
        (\<exists>r \<in> set rules. \<exists>k v. scan (Content inputNode) 0 (Key r) = Inr (Some (k, v))
           \<and> Include r \<noteq> [] \<and> filterByRules (Include r) v zeroNode = Inl e))
   \<and> (wellFormed inputNode \<longrightarrow> filterByRules rules inputNode outputNode \<noteq> Inl IndexOutOfRange)"
  using scan_even_no_panic [of content key IndexOutOfRange] no_panic_mutual(1)
    own_reads_in_bounds [of inputNode rules outputNode e]
  by blast

theorem even_content_in_bounds_witness:
  "even (length (Content shapeInputLater))
   \<and> scan (Content shapeInputLater) 0 ''host'' \<noteq> Inl IndexOutOfRange
   \<and> rulesLoop (leaf ''cache'' # shapeRules) shapeInputLater zeroNode
       = Inl (Fatal ''Input node is not a mapping node'')
   \<and> wellFormed shapeInputLater
   \<and> filterByRules (leaf ''cache'' # shapeRules) shapeInputLater zeroNode \<noteq> Inl IndexOutOfRange
   \<and> wellFormed configInput
   \<and> filterByRules nestedRules configInput zeroNode \<noteq> Inl IndexOutOfRange"
proof -
  have h1: "even (length (Content shapeInputLater))" by code_simp
  have h2: "rulesLoop (leaf ''cache'' # shapeRules) shapeInputLater zeroNode
       = Inl (Fatal ''Input node is not a mapping node'')"
    by code_simp
  have h3: "wellFormed shapeInputLater" by code_simp
  have h4: "wellFormed configInput" by code_simp
  from even_content_in_bounds [of "Content shapeInputLater" "''host''" shapeInputLater
      "leaf ''cache'' # shapeRules" zeroNode "Fatal ''Input node is not a mapping node''"]
    even_content_in_bounds [of "Content configInput" "''host''" configInput nestedRules zeroNode
      "Fatal ''Input node is not a mapping node''"]
    h1 h2 h3 h4
  show ?thesis by blast
qed

end
